theory Spec2Isabelle
  imports Complex_Main "HOL-Library.Multiset"
begin

section \<open>Eager A* search: \<open>eager_astar_search.cpp\<close>\<close>

text \<open>
  The embedding follows \<open>EagerAStarSearch::plan\<close> line by line. A value of type
  \<open>double\<close> is modelled by the real number it denotes: the model has the finite doubles,
  and neither the infinities nor NaN. The \<open>int32_t\<close> counters are unbounded integers
  (their overflow needs more than \<open>2^31\<close> frames); frame handles are natural numbers.
\<close>

section \<open>The arithmetic of \<open>double\<close>\<close>

text \<open>
  The nearest integer of a real number, the even one of the two when it lies halfway.
\<close>

definition round_even :: "real \<Rightarrow> int" where
  "round_even r =
    (if r - of_int \<lfloor>r\<rfloor> < 1 / 2 then \<lfloor>r\<rfloor>
     else if 1 / 2 < r - of_int \<lfloor>r\<rfloor> then \<lfloor>r\<rfloor> + 1
     else if even \<lfloor>r\<rfloor> then \<lfloor>r\<rfloor> else \<lfloor>r\<rfloor> + 1)"

text \<open>
  Rounding to IEEE 754 binary64 in the default mode (to nearest, ties to even): a number
  \<open>x\<close> with \<open>2^k \<le> |x| < 2^(k+1)\<close> is rounded to a multiple of \<open>2^(k-52)\<close>, so that 53
  significant bits remain, and to a multiple of \<open>2^(-1074)\<close> in the subnormal range.
  A result of magnitude \<open>2^1024\<close> or more is an infinity in the source and outside the
  model.
\<close>

definition to_double :: "real \<Rightarrow> real" where
  "to_double x =
    (if x = 0 then 0
     else let e = max (\<lfloor>log 2 \<bar>x\<bar>\<rfloor> - 52) (- 1074)
          in of_int (round_even (x / 2 powr of_int e)) * 2 powr of_int e)"

text \<open>\<open>x + y\<close> on two values of type \<open>double\<close> (lines 76, 125, 127, 142 and 157).\<close>

definition double_add :: "real \<Rightarrow> real \<Rightarrow> real" where
  "double_add x y = to_double (x + y)"


section \<open>The data of the engine\<close>

datatype search_result = SOLVED | UNSOLVABLE | ABORTED

text \<open>
  What ends \<open>plan\<close> other than a \<open>return\<close>: the \<open>std::runtime_error\<close> of line 28; an index
  outside \<open>frame_list\<close> (undefined behaviour of \<open>operator[]\<close> at lines 68 and 141,
  \<open>std::out_of_range\<close> of \<open>at\<close> at line 104); the use of a frame whose \<open>state\<close> is \<open>nullptr\<close>;
  the conversion at line 80 of a \<open>double\<close> whose integral part is no \<open>int32_t\<close>
  (undefined behaviour).
\<close>

datatype error = OpenListNotEmpty | FrameIndexOutOfRange | NullState | ConversionOutOfRange

text \<open>The local \<open>struct Frame\<close> (lines 37-46); \<open>nullptr\<close> is \<open>None\<close>.\<close>

record ('s, 'a) frame =
  state :: "'s option"
  predecessor_action :: "'a option"
  predecessor_index :: int
  depth :: int
  g_value :: real
  h_value :: real
  closed_flag :: bool

text \<open>A value of \<open>std::variant<int32_t, double>\<close>, as stored in \<open>statistics_\<close>.\<close>

datatype stat = IntStat int | RealStat real

text \<open>
  The collaborators of the engine, none of which is defined in the two source files:
  the problem (initial state, goal test), the successor generator, the application of an
  action, the cost of an action, the heuristic with its dead-end test, the open list
  (\<open>size\<close>, \<open>insert\<close>, \<open>pop\<close> over a queue type \<open>'q\<close>), and the volatile flag
  \<open>should_abort\<close>. The flag is read once per accepted pop (line 90), and every accepted
  pop that does not return increments \<open>expanded\<close>; \<open>should_abort k\<close> is the value seen by
  the read made when \<open>expanded = k\<close>.
\<close>

record ('s, 'a, 'q) engine =
  initial_state :: 's
  goal_holds :: "'s \<Rightarrow> bool"
  get_applicable_actions :: "'s \<Rightarrow> 'a list"
  apply_action :: "'a \<Rightarrow> 's \<Rightarrow> 's"
  cost :: "'a \<Rightarrow> real"
  evaluate :: "'s \<Rightarrow> real"
  is_dead_end :: "real \<Rightarrow> bool"
  ol_size :: "'q \<Rightarrow> nat"
  ol_insert :: "nat \<Rightarrow> real \<Rightarrow> 'q \<Rightarrow> 'q"
  ol_pop :: "'q \<Rightarrow> nat \<times> 'q"
  should_abort :: "int \<Rightarrow> bool"

text \<open>
  The state that \<open>plan\<close> reads and writes: the members \<open>open_list_\<close> and \<open>statistics_\<close>,
  the caller's \<open>out_plan\<close>, the locals of lines 32-35 and 48-49, and the number of calls
  of \<open>notify_handlers\<close> made so far.
\<close>

record ('s, 'a, 'q) search_state =
  open_list :: 'q
  statistics :: "string \<rightharpoonup> stat"
  notified :: nat
  out_plan :: "'a list"
  expanded :: int
  generated :: int
  evaluated :: int
  last_f_value :: int
  state_indices :: "'s \<rightharpoonup> nat"
  frame_list :: "('s, 'a) frame list"

text \<open>What one pass through the body of the \<open>while\<close> loop does to the control flow.\<close>

datatype ('s, 'a, 'q) flow =
  Continue "('s, 'a, 'q) search_state"
  | Return search_result "('s, 'a, 'q) search_state"
  | GoalFound nat "('s, 'a, 'q) search_state"
  | Throw error

section \<open>The operations\<close>

text \<open>\<open>state_indices[s]\<close>: \<open>operator[]\<close> of the hash map yields the default \<open>0\<close> for a new key.\<close>

definition index_of :: "('s \<rightharpoonup> nat) \<Rightarrow> 's \<Rightarrow> nat" where
  "index_of m s = (case m s of None \<Rightarrow> 0 | Some i \<Rightarrow> i)"

text \<open>Line 53.\<close>

definition dummy_frame :: "('s, 'a) frame" where
  "dummy_frame = \<lparr>state = None, predecessor_action = None, predecessor_index = - 1,
     depth = 0, g_value = 0, h_value = 0, closed_flag = True\<rparr>"

text \<open>Lines 51-63.\<close>

definition initialise ::
  "('s, 'a, 'q) engine \<Rightarrow> ('s, 'a, 'q) search_state \<Rightarrow> ('s, 'a, 'q) search_state" where
  "initialise p st =
    (let frames1 = frame_list st @ [dummy_frame];
         initial_index = length frames1;
         initial = initial_state p;
         initial_h_value = evaluate p initial
     in st\<lparr>state_indices := (state_indices st)(initial \<mapsto> initial_index),
           frame_list := frames1 @ [\<lparr>state = Some initial, predecessor_action = None,
              predecessor_index = - 1, depth = 0, g_value = 0, h_value = initial_h_value,
              closed_flag = False\<rparr>],
           open_list := ol_insert p initial_index 0 (open_list st),
           evaluated := evaluated st + 1\<rparr>)"

text \<open>
  The conversion of a \<open>double\<close> to \<open>int32_t\<close> in the assignment of line 80: the value is
  truncated towards zero, and the behaviour is undefined (\<open>None\<close>) when the truncated
  value is not an \<open>int32_t\<close>.
\<close>

definition to_int32 :: "real \<Rightarrow> int option" where
  "to_int32 x =
    (let t = (if 0 \<le> x then \<lfloor>x\<rfloor> else \<lceil>x\<rceil>)
     in if - (2 ^ 31) \<le> t \<and> t < 2 ^ 31 then Some t else None)"

text \<open>Lines 76-88, for the accepted frame \<open>fr\<close>.\<close>

definition report_layer ::
  "('s, 'a) frame \<Rightarrow> ('s, 'a, 'q) search_state \<Rightarrow> error + ('s, 'a, 'q) search_state" where
  "report_layer fr st =
    (let f_value = double_add (g_value fr) (h_value fr)
     in if real_of_int (last_f_value st) < f_value
        then (case to_int32 f_value of
                None \<Rightarrow> Inl ConversionOutOfRange
              | Some f_int \<Rightarrow>
                  Inr (st\<lparr>last_f_value := f_int,
                    statistics := (statistics st)
                      (''expanded'' \<mapsto> IntStat (expanded st),
                       ''generated'' \<mapsto> IntStat (generated st),
                       ''evaluated'' \<mapsto> IntStat (evaluated st),
                       ''max_depth'' \<mapsto> IntStat (depth fr),
                       ''max_g_value'' \<mapsto> RealStat (g_value fr),
                       ''max_f_value'' \<mapsto> RealStat f_value),
                    notified := notified st + 1\<rparr>))
        else Inr st)"

text \<open>
  Lines 117-162: one action of the \<open>for\<close> loop. \<open>frame\<close> is a reference into \<open>frame_list\<close>,
  so it is read from the current list.
\<close>

definition process_action ::
  "('s, 'a, 'q) engine \<Rightarrow> nat \<Rightarrow> 'a \<Rightarrow> ('s, 'a, 'q) search_state
    \<Rightarrow> error + ('s, 'a, 'q) search_state" where
  "process_action p index action st =
    (let frame = frame_list st ! index in
     case state frame of
       None \<Rightarrow> Inl NullState
     | Some frame_state \<Rightarrow>
        (let succ_state = apply_action p action frame_state;
             succ_index = index_of (state_indices st) succ_state
         in if succ_index = 0 then
              (let succ_index = length (frame_list st);
                   succ_g_value = double_add (g_value frame) (cost p action);
                   succ_h_value = evaluate p succ_state;
                   succ_f_value = double_add succ_g_value succ_h_value;
                   succ_dead_end = is_dead_end p succ_h_value;
                   st1 = st\<lparr>state_indices := (state_indices st)(succ_state \<mapsto> succ_index),
                            evaluated := evaluated st + 1,
                            frame_list := frame_list st @
                              [\<lparr>state = Some succ_state, predecessor_action = Some action,
                                predecessor_index = int index, depth = depth frame + 1,
                                g_value = succ_g_value, h_value = succ_h_value,
                                closed_flag = succ_dead_end\<rparr>]\<rparr>
               in if \<not> succ_dead_end
                  then Inr (st1\<lparr>open_list := ol_insert p succ_index succ_f_value (open_list st1),
                                generated := generated st1 + 1\<rparr>)
                  else Inr st1)
            else if succ_index < length (frame_list st) then
              (let succ_frame = frame_list st ! succ_index;
                   succ_g_value = double_add (g_value frame) (cost p action)
               in if succ_g_value < g_value succ_frame then
                    (let st1 = st\<lparr>frame_list := (frame_list st)[succ_index :=
                                 succ_frame\<lparr>predecessor_action := Some action,
                                   predecessor_index := int index,
                                   depth := depth frame + 1,
                                   g_value := succ_g_value\<rparr>]\<rparr>
                     in if \<not> is_dead_end p (h_value succ_frame)
                        then Inr (st1\<lparr>open_list :=
                                        ol_insert p succ_index
                                          (double_add succ_g_value (h_value succ_frame))
                                          (open_list st1),
                                      generated := generated st1 + 1\<rparr>)
                        else Inr st1)
                  else Inr st)
            else Inl FrameIndexOutOfRange))"

text \<open>Lines 115-163: the \<open>for\<close> loop over the applicable actions.\<close>

fun for_actions ::
  "('s, 'a, 'q) engine \<Rightarrow> nat \<Rightarrow> 'a list \<Rightarrow> ('s, 'a, 'q) search_state
    \<Rightarrow> error + ('s, 'a, 'q) search_state" where
  "for_actions p index [] st = Inr st"
| "for_actions p index (action # actions) st =
    (case process_action p index action st of
       Inl e \<Rightarrow> Inl e
     | Inr st' \<Rightarrow> for_actions p index actions st')"

text \<open>
  Lines 67-163: one pass through the loop body, up to the point where the goal is
  recognised (the reconstruction of the plan is \<open>reconstruct\<close> below).
\<close>

definition loop_body :: "('s, 'a, 'q) engine \<Rightarrow> ('s, 'a, 'q) search_state \<Rightarrow> ('s, 'a, 'q) flow" where
  "loop_body p st =
    (let index = fst (ol_pop p (open_list st));
         st1 = st\<lparr>open_list := snd (ol_pop p (open_list st))\<rparr>
     in if \<not> index < length (frame_list st1) then Throw FrameIndexOutOfRange
        else
          let frame = frame_list st1 ! index
          in if closed_flag frame then Continue st1
             else
               let st2 = st1\<lparr>frame_list := (frame_list st1)[index := frame\<lparr>closed_flag := True\<rparr>]\<rparr>
               in case report_layer frame st2 of
                    Inl e \<Rightarrow> Throw e
                  | Inr st3 \<Rightarrow>
                      if should_abort p (expanded st3) then Return ABORTED st3
                      else case state frame of
                        None \<Rightarrow> Throw NullState
                      | Some frame_state \<Rightarrow>
                          if goal_holds p frame_state then GoalFound index st3
                          else
                            (case for_actions p index (get_applicable_actions p frame_state)
                                    (st3\<lparr>expanded := expanded st3 + 1\<rparr>) of
                               Inl e \<Rightarrow> Throw e
                             | Inr st4 \<Rightarrow> Continue st4))"

text \<open>
  Lines 101-105: the walk along the predecessor links, which collects the actions from the
  goal backwards. The loop has no bound in the source; \<open>None\<close> is a walk that never ends.
\<close>

partial_function (option) reconstruct ::
  "('s, 'a) frame list \<Rightarrow> ('s, 'a) frame \<Rightarrow> 'a list \<Rightarrow> (error + 'a list) option" where
  "reconstruct frames current_frame collected =
    (case predecessor_action current_frame of
       None \<Rightarrow> Some (Inr collected)
     | Some action \<Rightarrow>
        if 0 \<le> predecessor_index current_frame
           \<and> nat (predecessor_index current_frame) < length frames
        then reconstruct frames (frames ! nat (predecessor_index current_frame))
               (collected @ [action])
        else Some (Inl FrameIndexOutOfRange))"

text \<open>Lines 95-109: the goal branch, with \<open>out_plan.clear()\<close> and the final \<open>std::reverse\<close>.\<close>

definition goal_branch ::
  "nat \<Rightarrow> ('s, 'a, 'q) search_state \<Rightarrow> (error + search_result \<times> ('s, 'a, 'q) search_state) option" where
  "goal_branch index st =
    (case reconstruct (frame_list st) (frame_list st ! index) [] of
       None \<Rightarrow> None
     | Some (Inl e) \<Rightarrow> Some (Inl e)
     | Some (Inr collected) \<Rightarrow> Some (Inr (SOLVED, st\<lparr>out_plan := rev collected\<rparr>)))"

text \<open>Lines 65-166: the \<open>while\<close> loop; \<open>None\<close> is a search that never ends.\<close>

partial_function (option) search_loop ::
  "('s, 'a, 'q) engine \<Rightarrow> ('s, 'a, 'q) search_state
    \<Rightarrow> (error + search_result \<times> ('s, 'a, 'q) search_state) option" where
  "search_loop p st =
    (if 0 < ol_size p (open_list st) then
       (case loop_body p st of
          Continue st' \<Rightarrow> search_loop p st'
        | Return r st' \<Rightarrow> Some (Inr (r, st'))
        | GoalFound index st' \<Rightarrow> goal_branch index st'
        | Throw e \<Rightarrow> Some (Inl e))
     else Some (Inr (UNSOLVABLE, st)))"

text \<open>
  The state at line 50, for an open list \<open>q\<close> and a caller's sequence \<open>plan0\<close>:
  \<open>statistics_\<close> cleared, the counters at their initial values, the two containers empty.
\<close>

definition entry_state :: "'q \<Rightarrow> 'a list \<Rightarrow> ('s, 'a, 'q) search_state" where
  "entry_state q plan0 =
    \<lparr>open_list = q, statistics = Map.empty, notified = 0, out_plan = plan0,
     expanded = 0, generated = 0, evaluated = 0, last_f_value = - 1,
     state_indices = Map.empty, frame_list = []\<rparr>"

text \<open>
  \<open>EagerAStarSearch::plan\<close> (lines 24-167), called with the open list \<open>q\<close> and the caller's
  sequence \<open>plan0\<close>. The result is \<open>None\<close> when the call never returns, \<open>Some (Inl e)\<close> when
  it ends in the error \<open>e\<close>, and \<open>Some (Inr (r, st))\<close> when it returns \<open>r\<close> in the state \<open>st\<close>.
\<close>

definition plan ::
  "('s, 'a, 'q) engine \<Rightarrow> 'q \<Rightarrow> 'a list
    \<Rightarrow> (error + search_result \<times> ('s, 'a, 'q) search_state) option" where
  "plan p q plan0 =
    (if 0 < ol_size p q then Some (Inl OpenListNotEmpty)
     else search_loop p (initialise p (entry_state q plan0)))"

section \<open>An open list and the scenarios\<close>

text \<open>
  Modelled from the spec: the Open List collaborator, whose class is not among the source
  files. It is a duplicate-tolerant min-priority queue over frame handles: \<open>insert\<close> adds
  an entry, \<open>pop\<close> removes and returns an entry of minimum priority, \<open>size\<close> counts the
  entries. Here the queue is the list of its entries in insertion order, and among
  entries of equal priority \<open>pop\<close> takes the oldest.
\<close>

fun first_min :: "nat \<times> real \<Rightarrow> (nat \<times> real) list \<Rightarrow> nat \<times> real" where
  "first_min e [] = e"
| "first_min e (x # xs) = first_min (if snd x < snd e then x else e) xs"

definition list_pop :: "(nat \<times> real) list \<Rightarrow> nat \<times> (nat \<times> real) list" where
  "list_pop q =
    (case q of
       [] \<Rightarrow> (0, [])
     | x # xs \<Rightarrow> (fst (first_min x xs), remove1 (first_min x xs) q))"

definition list_insert :: "nat \<Rightarrow> real \<Rightarrow> (nat \<times> real) list \<Rightarrow> (nat \<times> real) list" where
  "list_insert i pr q = q @ [(i, pr)]"

text \<open>
  The states of the scenarios of the specification; an action is the edge it follows,
  and applying it yields the head of the edge.
\<close>

datatype node = A | B | C | D

definition scenario ::
  "(node \<Rightarrow> (node \<times> node) list) \<Rightarrow> (node \<times> node \<Rightarrow> real) \<Rightarrow> (node \<Rightarrow> real) \<Rightarrow> (node \<Rightarrow> bool)
    \<Rightarrow> (real \<Rightarrow> bool) \<Rightarrow> (node, node \<times> node, (nat \<times> real) list) engine" where
  "scenario acts c h goal dead =
    \<lparr>initial_state = A, goal_holds = goal, get_applicable_actions = acts,
     apply_action = (\<lambda>a s. snd a), cost = c, evaluate = h, is_dead_end = dead,
     ol_size = length, ol_insert = list_insert, ol_pop = list_pop,
     should_abort = (\<lambda>k. False)\<rparr>"

definition chain_actions :: "node \<Rightarrow> (node \<times> node) list" where
  "chain_actions s = (case s of A \<Rightarrow> [(A, B)] | B \<Rightarrow> [(B, C)] | _ \<Rightarrow> [])"

definition chain_h :: "node \<Rightarrow> real" where
  "chain_h s = (case s of A \<Rightarrow> 2 | B \<Rightarrow> 1 | _ \<Rightarrow> 0)"

text \<open>
  The scenario \<open>A \<rightarrow> B \<rightarrow> C\<close> with unit costs, goal \<open>C\<close> and \<open>h A = 2\<close>, \<open>h B = 1\<close>,
  \<open>h C = 0\<close>; no value of the heuristic is a dead end and no abort is requested.
\<close>

definition chain :: "(node, node \<times> node, (nat \<times> real) list) engine" where
  "chain = scenario chain_actions (\<lambda>a. 1) chain_h (\<lambda>s. s = C) (\<lambda>h. False)"

text \<open>The same graph without a goal state.\<close>

definition no_goal :: "(node, node \<times> node, (nat \<times> real) list) engine" where
  "no_goal = scenario chain_actions (\<lambda>a. 1) chain_h (\<lambda>s. False) (\<lambda>h. False)"

text \<open>The chain scenario with the abort flag set from the start.\<close>

definition aborting :: "(node, node \<times> node, (nat \<times> real) list) engine" where
  "aborting = chain\<lparr>should_abort := (\<lambda>k. True)\<rparr>"

text \<open>
  A successor that the heuristic marks as a dead end: \<open>A \<rightarrow> B\<close> and \<open>A \<rightarrow> C\<close>, goal \<open>C\<close>,
  and \<open>h B\<close> is the value that \<open>is_dead_end\<close> recognises (here \<open>1000\<close>).
\<close>

definition dead_branch :: "(node, node \<times> node, (nat \<times> real) list) engine" where
  "dead_branch = scenario (\<lambda>s. case s of A \<Rightarrow> [(A, B), (A, C)] | _ \<Rightarrow> []) (\<lambda>a. 1)
     (\<lambda>s. case s of A \<Rightarrow> 1 | B \<Rightarrow> 1000 | _ \<Rightarrow> 0) (\<lambda>s. s = C) (\<lambda>h. h = 1000)"

text \<open>
  An unsolvable problem that the heuristic recognises in the initial state: the chain
  \<open>A \<rightarrow> B \<rightarrow> C\<close> with the unreachable goal \<open>D\<close>; the heuristic is the dead-end value on
  \<open>A\<close>, \<open>B\<close> and \<open>C\<close>.
\<close>

definition dead_start :: "(node, node \<times> node, (nat \<times> real) list) engine" where
  "dead_start = scenario chain_actions (\<lambda>a. 1) (\<lambda>s. case s of D \<Rightarrow> 0 | _ \<Rightarrow> 1000)
     (\<lambda>s. s = D) (\<lambda>h. h = 1000)"

text \<open>
  The chain with the costs \<open>1/2\<close> and \<open>1\<close> and the exact remaining cost as heuristic:
  every state has the f-value \<open>3/2\<close>.
\<close>

definition half_steps :: "(node, node \<times> node, (nat \<times> real) list) engine" where
  "half_steps = scenario chain_actions (\<lambda>a. if a = (A, B) then 1 / 2 else 1)
     (\<lambda>s. case s of A \<Rightarrow> 3 / 2 | B \<Rightarrow> 1 | _ \<Rightarrow> 0) (\<lambda>s. s = C) (\<lambda>h. False)"

text \<open>
  The path-improvement scenario: \<open>D\<close> is reached first by \<open>A \<rightarrow> D\<close> of cost \<open>5\<close> and later
  by \<open>A \<rightarrow> B \<rightarrow> D\<close> of cost \<open>2\<close>.
\<close>

definition two_routes :: "(node, node \<times> node, (nat \<times> real) list) engine" where
  "two_routes = scenario (\<lambda>s. case s of A \<Rightarrow> [(A, D), (A, B)] | B \<Rightarrow> [(B, D)] | _ \<Rightarrow> [])
     (\<lambda>a. if a = (A, D) then 5 else 1)
     (\<lambda>s. case s of A \<Rightarrow> 2 | B \<Rightarrow> 1 | _ \<Rightarrow> 0) (\<lambda>s. s = D) (\<lambda>h. False)"

text \<open>
  Two goal states: \<open>A \<rightarrow> D\<close> of cost \<open>2\<close> and \<open>A \<rightarrow> C\<close> of cost \<open>1\<close>, where \<open>C\<close> and \<open>D\<close> both
  satisfy the goal and the heuristic is \<open>0\<close> everywhere.
\<close>

definition two_goals :: "(node, node \<times> node, (nat \<times> real) list) engine" where
  "two_goals = scenario (\<lambda>s. case s of A \<Rightarrow> [(A, D), (A, C)] | _ \<Rightarrow> [])
     (\<lambda>a. if a = (A, D) then 2 else 1) (\<lambda>s. 0) (\<lambda>s. s = C \<or> s = D) (\<lambda>h. False)"





text \<open>
  The state of \<open>two_routes\<close> in the middle of the expansion of \<open>B\<close> (handle 3), before the
  action \<open>B \<rightarrow> D\<close> is processed: \<open>D\<close> (handle 2) is known with the cost \<open>5\<close>.
\<close>

definition rediscovery_state :: "(node, node \<times> node, (nat \<times> real) list) search_state" where
  "rediscovery_state =
    \<lparr>open_list = [(2, 5)], statistics = Map.empty, notified = 1, out_plan = [],
     expanded = 2, generated = 2, evaluated = 3, last_f_value = 2,
     state_indices = [A \<mapsto> 1, D \<mapsto> 2, B \<mapsto> 3],
     frame_list =
       [dummy_frame,
        \<lparr>state = Some A, predecessor_action = None, predecessor_index = - 1, depth = 0,
         g_value = 0, h_value = 2, closed_flag = True\<rparr>,
        \<lparr>state = Some D, predecessor_action = Some (A, D), predecessor_index = 1, depth = 1,
         g_value = 5, h_value = 0, closed_flag = False\<rparr>,
        \<lparr>state = Some B, predecessor_action = Some (A, B), predecessor_index = 1, depth = 1,
         g_value = 1, h_value = 1, closed_flag = True\<rparr>]\<rparr>"

section \<open>Notions of the specification\<close>

text \<open>
  The predecessor chain of a frame: \<open>chain_from frames r i acts\<close> holds when the
  predecessor links lead from frame \<open>i\<close> back to frame \<open>r\<close>, which has no predecessor
  action, and \<open>acts\<close> are the actions of these links in forward order, from \<open>r\<close> to \<open>i\<close>:
  the last action is the one that leads to \<open>i\<close>.
\<close>

inductive chain_from :: "('s, 'a) frame list \<Rightarrow> nat \<Rightarrow> nat \<Rightarrow> 'a list \<Rightarrow> bool"
  for frames :: "('s, 'a) frame list" and r :: nat where
  root: "r < length frames \<Longrightarrow> predecessor_action (frames ! r) = None
          \<Longrightarrow> chain_from frames r r []"
| link: "i < length frames \<Longrightarrow> predecessor_action (frames ! i) = Some a
          \<Longrightarrow> predecessor_index (frames ! i) = int j \<Longrightarrow> chain_from frames r j acts
          \<Longrightarrow> chain_from frames r i (acts @ [a])"

text \<open>
  The states in which the loop is at its head: \<open>passes p st st'\<close> holds when the loop that
  is entered in the state \<open>st\<close> reaches the state \<open>st'\<close> after some passes, each of which
  found the open list non-empty and continued.
\<close>

inductive passes ::
  "('s, 'a, 'q) engine \<Rightarrow> ('s, 'a, 'q) search_state \<Rightarrow> ('s, 'a, 'q) search_state \<Rightarrow> bool"
  for p :: "('s, 'a, 'q) engine" and st :: "('s, 'a, 'q) search_state" where
  start: "passes p st st"
| pass: "passes p st st1 \<Longrightarrow> 0 < ol_size p (open_list st1) \<Longrightarrow> loop_body p st1 = Continue st2
          \<Longrightarrow> passes p st st2"

text \<open>
  How the expansion of one frame may change the frame list: frames are only appended,
  the old frames keep their state, heuristic value and closed flag, and a new frame is
  closed exactly if its heuristic value is a dead end.
\<close>

definition frames_extend ::
  "('s, 'a, 'q) engine \<Rightarrow> ('s, 'a) frame list \<Rightarrow> ('s, 'a) frame list \<Rightarrow> bool" where
  "frames_extend p fs fs' \<longleftrightarrow>
     length fs \<le> length fs'
     \<and> (\<forall>j<length fs. closed_flag (fs' ! j) = closed_flag (fs ! j)
            \<and> h_value (fs' ! j) = h_value (fs ! j) \<and> state (fs' ! j) = state (fs ! j))
     \<and> (\<forall>j. length fs \<le> j \<and> j < length fs'
            \<longrightarrow> closed_flag (fs' ! j) = is_dead_end p (h_value (fs' ! j)))"

text \<open>
  The state space of a problem: \<open>path_from p s as\<close> is the state reached from \<open>s\<close> by the
  action sequence \<open>as\<close>, if each action is applicable where it is applied; a plan is a
  sequence that leads from the initial state to a state that satisfies the goal, and its
  cost is the sum of the costs of its actions.
\<close>

fun path_from :: "('s, 'a, 'q) engine \<Rightarrow> 's \<Rightarrow> 'a list \<Rightarrow> 's option" where
  "path_from p s [] = Some s"
| "path_from p s (a # as) =
    (if a \<in> set (get_applicable_actions p s) then path_from p (apply_action p a s) as else None)"

definition plan_cost :: "('s, 'a, 'q) engine \<Rightarrow> 'a list \<Rightarrow> real" where
  "plan_cost p as = sum_list (map (cost p) as)"


definition reachable :: "('s, 'a, 'q) engine \<Rightarrow> 's set" where
  "reachable p = {t. \<exists>as. path_from p (initial_state p) as = Some t}"

definition reaches_goal :: "('s, 'a, 'q) engine \<Rightarrow> 's \<Rightarrow> bool" where
  "reaches_goal p s \<longleftrightarrow> (\<exists>as t. path_from p s as = Some t \<and> goal_holds p t)"






definition admissible :: "('s, 'a, 'q) engine \<Rightarrow> bool" where
  "admissible p \<longleftrightarrow>
     (\<forall>s\<in>reachable p. \<forall>as t. path_from p s as = Some t \<and> goal_holds p t
        \<longrightarrow> \<not> is_dead_end p (evaluate p s) \<and> evaluate p s \<le> plan_cost p as)"

definition consistent :: "('s, 'a, 'q) engine \<Rightarrow> bool" where
  "consistent p \<longleftrightarrow>
     (\<forall>s\<in>reachable p. \<forall>a\<in>set (get_applicable_actions p s).
        \<not> is_dead_end p (evaluate p s) \<and> \<not> is_dead_end p (evaluate p (apply_action p a s))
        \<longrightarrow> evaluate p s \<le> cost p a + evaluate p (apply_action p a s))"



section \<open>Invariants of the search\<close>

text \<open>
  What holds of the frames and the index in every search, whatever the collaborators do:
  the dummy frame is closed, frame 1 has the initial state, every indexed state has its
  frame, every predecessor action is an applicable action from the state of the frame that
  the predecessor index names (never the dummy frame) to the state of the frame itself,
  and every frame after frame 1 has a predecessor action.
\<close>

definition store_inv :: "('s, 'a, 'q) engine \<Rightarrow> ('s, 'a) frame list \<Rightarrow> ('s \<rightharpoonup> nat) \<Rightarrow> bool" where
  "store_inv p F idx \<longleftrightarrow>
     2 \<le> length F \<and> closed_flag (F ! 0) \<and> state (F ! 1) = Some (initial_state p)
     \<and> (\<forall>s i. idx s = Some i \<longrightarrow> 0 < i \<and> i < length F \<and> state (F ! i) = Some s)
     \<and> (\<forall>i a. i < length F \<and> predecessor_action (F ! i) = Some a \<longrightarrow>
           (\<exists>j sj. predecessor_index (F ! i) = int j \<and> 0 < j \<and> j < length F
              \<and> state (F ! j) = Some sj \<and> a \<in> set (get_applicable_actions p sj)
              \<and> state (F ! i) = Some (apply_action p a sj)))
     \<and> (\<forall>i. 1 < i \<and> i < length F \<longrightarrow> predecessor_action (F ! i) \<noteq> None)"










section \<open>Sums that are computed exactly\<close>

lemma round_even_of_int: "round_even (of_int n) = n"
  by (simp add: round_even_def)

lemma to_double_representable:
  assumes m: "\<bar>m\<bar> < 2 ^ 53" and e0: "- 1074 \<le> e0"
  shows "to_double (of_int m * 2 powr of_int e0) = of_int m * 2 powr of_int e0"
proof (cases "m = 0")
  case True
  then show ?thesis by (simp add: to_double_def)
next
  case False
  define x :: real where "x = of_int m * 2 powr of_int e0"
  define k where "k = \<lfloor>log 2 \<bar>x\<bar>\<rfloor>"
  define e where "e = max (k - 52) (- 1074)"
  define d where "d = nat (e0 - e)"
  define E :: real where "E = 2 powr of_int e"
  from False have x0: "x \<noteq> 0" by (simp add: x_def)
  have absx: "\<bar>x\<bar> = of_int \<bar>m\<bar> * 2 powr of_int e0" by (simp add: x_def abs_mult)
  from m have "(of_int \<bar>m\<bar> :: real) < 2 ^ 53"
    by (metis of_int_less_numeral_power_cancel_iff)
  then have "of_int \<bar>m\<bar> * 2 powr of_int e0 < (2 ^ 53 :: real) * 2 powr of_int e0"
    by simp
  also have "\<dots> = 2 powr (53 + of_int e0)"
    by (simp add: powr_add)
  finally have "\<bar>x\<bar> < 2 powr (53 + of_int e0)" using absx by simp
  moreover from x0 have "0 < \<bar>x\<bar>" by simp
  ultimately have "log 2 \<bar>x\<bar> < 53 + of_int e0"
    by (simp add: log_less_iff)
  then have "k < 53 + e0" unfolding k_def by linarith
  with e0 have ele: "e \<le> e0" by (simp add: e_def)
  then have "e0 = e + int d" by (simp add: d_def)
  then have d: "(of_int e0 :: real) = of_int e + real d" by simp
  have E: "0 < E" by (simp add: E_def)
  have pw: "(2::real) powr of_int e0 = E * 2 ^ d"
    unfolding E_def d by (simp only: powr_add powr_realpow zero_less_numeral)
  have "x / E = of_int m * 2 ^ d" using E by (simp add: x_def pw)
  then have quot: "x / E = of_int (m * 2 ^ d)" by simp
  from x0 have "to_double x = of_int (round_even (x / E)) * E"
    by (simp add: to_double_def Let_def E_def e_def k_def)
  also have "\<dots> = of_int (m * 2 ^ d) * E"
    by (simp only: quot round_even_of_int)
  also have "\<dots> = x" using E by (simp add: x_def pw)
  finally show ?thesis by (simp only: x_def)
qed

lemma double_add_halves:
  assumes x: "2 * x \<in> \<int>" and y: "2 * y \<in> \<int>" and b: "\<bar>x + y\<bar> < 2 ^ 52"
  shows "double_add x y = x + y"
proof -
  from x y have "2 * x + 2 * y \<in> \<int>" by (rule Ints_add)
  then obtain m :: int where m: "2 * x + 2 * y = of_int m" by (auto elim: Ints_cases)
  then have xy: "x + y = of_int m * 2 powr of_int (- 1)" by (simp add: powr_minus field_simps)
  from m b have "\<bar>(of_int m :: real)\<bar> < 2 ^ 53" by (simp add: abs_if split: if_splits)
  then have "\<bar>m\<bar> < 2 ^ 53"
    by (metis of_int_abs of_int_less_numeral_power_cancel_iff)
  from to_double_representable[OF this, of "- 1"]
  have "to_double (of_int m * 2 powr of_int (- 1)) = of_int m * 2 powr of_int (- 1)" by simp
  then show ?thesis unfolding double_add_def xy .
qed










section \<open>Evaluation\<close>

lemmas scenario_defs =
  scenario_def chain_def no_goal_def aborting_def chain_actions_def chain_h_def
  dead_branch_def dead_start_def half_steps_def two_routes_def two_goals_def
  list_insert_def list_pop_def

lemmas loop_defs =
  plan_def entry_state_def initialise_def dummy_frame_def search_loop.simps loop_body_def
  report_layer_def process_action_def index_of_def goal_branch_def
  reconstruct.simps Let_def

lemmas run_defs = loop_defs to_int32_def double_add_halves

section \<open>The loop as a whole\<close>

text \<open>
  A rule for the \<open>while\<close> loop: an invariant \<open>I\<close> kept by every pass that continues
  establishes \<open>Q\<close> of whatever the loop ends with.
\<close>

lemma search_loop_rule:
  assumes run: "search_loop p st = Some res"
    and init: "I st"
    and step: "\<And>st st'. I st \<Longrightarrow> 0 < ol_size p (open_list st)
                 \<Longrightarrow> loop_body p st = Continue st' \<Longrightarrow> I st'"
    and empty: "\<And>st. I st \<Longrightarrow> \<not> 0 < ol_size p (open_list st) \<Longrightarrow> Q (Inr (UNSOLVABLE, st))"
    and ret: "\<And>st r st'. I st \<Longrightarrow> 0 < ol_size p (open_list st)
                 \<Longrightarrow> loop_body p st = Return r st' \<Longrightarrow> Q (Inr (r, st'))"
    and goal: "\<And>st i st' res. I st \<Longrightarrow> 0 < ol_size p (open_list st)
                 \<Longrightarrow> loop_body p st = GoalFound i st' \<Longrightarrow> goal_branch i st' = Some res \<Longrightarrow> Q res"
    and throw: "\<And>st e. I st \<Longrightarrow> 0 < ol_size p (open_list st)
                 \<Longrightarrow> loop_body p st = Throw e \<Longrightarrow> Q (Inl e)"
  shows "Q res"
proof -
  have "p = p \<longrightarrow> I st \<longrightarrow> Q res"
  proof (rule search_loop.raw_induct[where P = "\<lambda>p' st res. p' = p \<longrightarrow> I st \<longrightarrow> Q res", OF _ run])
    fix loop :: "('a, 'b, 'c) engine \<Rightarrow> ('a, 'b, 'c) search_state
        \<Rightarrow> (error + search_result \<times> ('a, 'b, 'c) search_state) option"
    fix p' st res
    assume IH: "\<And>p' st res. loop p' st = Some res \<Longrightarrow> p' = p \<longrightarrow> I st \<longrightarrow> Q res"
      and eq: "(if 0 < ol_size p' (open_list st) then
                 (case loop_body p' st of
                    Continue st' \<Rightarrow> loop p' st'
                  | Return r st' \<Rightarrow> Some (Inr (r, st'))
                  | GoalFound index st' \<Rightarrow> goal_branch index st'
                  | Throw e \<Rightarrow> Some (Inl e))
               else Some (Inr (UNSOLVABLE, st))) = Some res"
    show "p' = p \<longrightarrow> I st \<longrightarrow> Q res"
    proof (intro impI)
      assume p': "p' = p" and inv: "I st"
      show "Q res"
      proof (cases "0 < ol_size p (open_list st)")
        case False
        with eq p' have "res = Inr (UNSOLVABLE, st)" by simp
        with empty[OF inv False] show ?thesis by simp
      next
        case True
        show ?thesis
        proof (cases "loop_body p st")
          case (Continue st')
          with eq p' True have "loop p st' = Some res" by simp
          from IH[OF this] step[OF inv True Continue] show ?thesis by simp
        next
          case (Return r st')
          with eq p' True have "res = Inr (r, st')" by simp
          with ret[OF inv True Return] show ?thesis by simp
        next
          case (GoalFound i st')
          with eq p' True have "goal_branch i st' = Some res" by simp
          with goal[OF inv True GoalFound] show ?thesis by simp
        next
          case (Throw e)
          with eq p' True have "res = Inl e" by simp
          with throw[OF inv True Throw] show ?thesis by simp
        qed
      qed
    qed
  qed
  with init show ?thesis by blast
qed

section \<open>The caller's sequence\<close>

lemma process_action_out_plan:
  "process_action p index a st = Inr st' \<Longrightarrow> out_plan st' = out_plan st"
  by (auto simp: process_action_def Let_def split: option.splits if_splits)

lemma for_actions_out_plan:
  "for_actions p index as st = Inr st' \<Longrightarrow> out_plan st' = out_plan st"
  by (induction as arbitrary: st) (auto split: sum.splits dest: process_action_out_plan)

lemma report_layer_out_plan: "report_layer fr st = Inr st' \<Longrightarrow> out_plan st' = out_plan st"
  by (auto simp: report_layer_def Let_def split: if_splits option.splits)

lemma loop_body_out_plan:
  "loop_body p st = Continue st' \<Longrightarrow> out_plan st' = out_plan st"
  "loop_body p st = Return r st' \<Longrightarrow> out_plan st' = out_plan st"
  "loop_body p st = GoalFound i st' \<Longrightarrow> out_plan st' = out_plan st"
  by (auto simp: loop_body_def Let_def
      split: option.splits if_splits sum.splits
      dest!: for_actions_out_plan report_layer_out_plan)

lemma no_goal_run: "\<exists>st. plan no_goal [] [(C, A)] = Some (Inr (UNSOLVABLE, st))"
  by (simp add: run_defs scenario_defs)

lemma aborting_run: "\<exists>st. plan aborting [] [(C, A)] = Some (Inr (ABORTED, st))"
  by (simp add: run_defs scenario_defs)

text \<open>
  Claim C10. Whenever \<open>plan\<close> returns \<open>UNSOLVABLE\<close> or \<open>ABORTED\<close>, the caller's \<open>out_plan\<close>
  is what was passed in: only the path that returns \<open>SOLVED\<close> clears and writes it.
\<close>

theorem plan_leaves_out_plan:
  assumes run: "plan p q plan0 = Some (Inr (r, st))"
    and r: "r = UNSOLVABLE \<or> r = ABORTED"
  shows "out_plan st = plan0"
proof -
  let ?st0 = "initialise p (entry_state q plan0)"
  from run have loop: "search_loop p ?st0 = Some (Inr (r, st))"
    by (simp add: plan_def split: if_splits)
  have "\<forall>r' st'. Inr (r, st) = (Inr (r', st') :: error + search_result \<times> ('a, 'b, 'c) search_state)
          \<longrightarrow> r' \<noteq> SOLVED \<longrightarrow> out_plan st' = plan0"
    by (rule search_loop_rule[OF loop, where I = "\<lambda>st. out_plan st = plan0"
          and Q = "\<lambda>res. \<forall>r st. res = Inr (r, st) \<longrightarrow> r \<noteq> SOLVED \<longrightarrow> out_plan st = plan0"])
      (auto simp: initialise_def entry_state_def Let_def goal_branch_def
        split: option.splits sum.splits dest: loop_body_out_plan)
  with r show ?thesis by auto
qed

theorem plan_leaves_out_plan_witness:
  "(\<exists>st. plan no_goal [] [(C, A)] = Some (Inr (UNSOLVABLE, st)) \<and> out_plan st = [(C, A)])
   \<and> (\<exists>st. plan aborting [] [(C, A)] = Some (Inr (ABORTED, st)) \<and> out_plan st = [(C, A)])"
  using no_goal_run plan_leaves_out_plan[of no_goal "[]" "[(C, A)]" UNSOLVABLE]
    aborting_run plan_leaves_out_plan[of aborting "[]" "[(C, A)]" ABORTED]
  by blast

section \<open>The precondition\<close>

text \<open>
  Claim C9. A call of \<open>plan\<close> with a non-empty open list fails at once with the error
  of line 28, whatever the problem: nothing is evaluated, allocated or expanded before.
\<close>

theorem plan_open_list_not_empty:
  "0 < ol_size p q \<Longrightarrow> plan p q plan0 = Some (Inl OpenListNotEmpty)"
  by (simp add: plan_def)

theorem plan_open_list_not_empty_witness:
  "0 < ol_size chain [(7, 3)] \<and> plan chain [(7, 3)] [] = Some (Inl OpenListNotEmpty)"
  using plan_open_list_not_empty[of chain "[(7, 3)]" "[]"] by (simp add: scenario_defs)

section \<open>Initialisation\<close>

text \<open>
  Claim C2, as the code has it. The initialisation evaluates the heuristic of the initial
  state once, stores the value \<open>h0\<close> in the frame of the initial state (handle 1), counts
  one evaluation, and inserts the handle into the open list with the priority \<open>0\<close>
  (line 61), not \<open>0 + h0\<close>.
\<close>

theorem initial_insert:
  "open_list (initialise p (entry_state q plan0)) = ol_insert p 1 0 q
   \<and> index_of (state_indices (initialise p (entry_state q plan0))) (initial_state p) = 1
   \<and> h_value (frame_list (initialise p (entry_state q plan0)) ! 1) = evaluate p (initial_state p)
   \<and> evaluated (initialise p (entry_state q plan0)) = 1"
  by (simp add: initialise_def entry_state_def index_of_def Let_def)

theorem initial_insert_witness:
  "open_list (initialise chain (entry_state [] [])) = [(1, 0)]
   \<and> h_value (frame_list (initialise chain (entry_state [] [])) ! 1) = 2
   \<and> evaluated (initialise chain (entry_state [] [])) = 1"
  using initial_insert[of chain "[]" "[]"] by (simp add: scenario_defs)

text \<open>
  The claim as the specification states it fails in the chain scenario, where \<open>h0 = 2\<close>:
  the entry of the open list is \<open>(1, 0)\<close>.
\<close>

theorem initial_insert_counterexample:
  "open_list (initialise chain (entry_state [] [])) = [(1, 0)]
   \<and> open_list (initialise chain (entry_state [] []))
       \<noteq> ol_insert chain 1 (0 + evaluate chain (initial_state chain)) []"
  by (simp add: run_defs scenario_defs)

section \<open>Handles\<close>

text \<open>
  Claim C3, as the code has it. The index of a state never seen is \<open>0\<close>, and \<open>0\<close> is the
  handle of the dummy frame, the first allocation; the frame of the initial state is the
  second allocation and has the handle \<open>1\<close>; every later allocation, made for a successor
  state whose index is \<open>0\<close>, receives the current size of the frame list as its handle
  and extends the list by one frame, so the handles are \<open>2, 3, \<dots>\<close> in the order of
  allocation; a successor state that was seen before allocates nothing.
\<close>

theorem handles:
  "index_of Map.empty s = 0
   \<and> frame_list (initialise p (entry_state q plan0)) ! 0 = dummy_frame
   \<and> length (frame_list (initialise p (entry_state q plan0))) = 2
   \<and> state (frame_list (initialise p (entry_state q plan0)) ! 1) = Some (initial_state p)
   \<and> index_of (state_indices (initialise p (entry_state q plan0))) (initial_state p) = 1
   \<and> (s \<noteq> initial_state p \<longrightarrow> index_of (state_indices (initialise p (entry_state q plan0))) s = 0)
   \<and> (state (frame_list st ! index) = Some fs
        \<and> index_of (state_indices st) (apply_action p a fs) = 0
      \<longrightarrow> (\<exists>st'. process_action p index a st = Inr st'
             \<and> index_of (state_indices st') (apply_action p a fs) = length (frame_list st)
             \<and> length (frame_list st') = length (frame_list st) + 1
             \<and> state (frame_list st' ! length (frame_list st)) = Some (apply_action p a fs)
             \<and> take (length (frame_list st)) (frame_list st') = frame_list st
             \<and> (\<forall>s'. s' \<noteq> apply_action p a fs
                   \<longrightarrow> index_of (state_indices st') s' = index_of (state_indices st) s')))
   \<and> (state (frame_list st ! index) = Some fs
        \<and> index_of (state_indices st) (apply_action p a fs) \<noteq> 0
        \<and> process_action p index a st = Inr st'
      \<longrightarrow> length (frame_list st') = length (frame_list st) \<and> state_indices st' = state_indices st)"
  by (auto simp: initialise_def entry_state_def index_of_def process_action_def Let_def split: option.splits)

theorem handles_witness:
  "\<exists>st'. process_action chain 1 (A, B) (initialise chain (entry_state [] [])) = Inr st'
      \<and> index_of (state_indices (initialise chain (entry_state [] []))) A = 1
      \<and> index_of (state_indices (initialise chain (entry_state [] []))) B = 0
      \<and> index_of (state_indices st') B = 2 \<and> length (frame_list st') = 3"
proof -
  let ?st = "initialise chain (entry_state [] [])"
  have pre: "state (frame_list ?st ! 1) = Some A"
    "index_of (state_indices ?st) (apply_action chain (A, B) A) = 0"
    "apply_action chain (A, B) A = B" "length (frame_list ?st) = 2"
    "index_of (state_indices ?st) A = 1"
    by (simp_all add: initialise_def entry_state_def Let_def scenario_defs index_of_def)
  from handles[of B chain "[]" "[]" ?st 1 A "(A, B)" ?st] pre(1,2)
  obtain st' where "process_action chain 1 (A, B) ?st = Inr st'"
    "index_of (state_indices st') (apply_action chain (A, B) A) = length (frame_list ?st)"
    "length (frame_list st') = length (frame_list ?st) + 1"
    by blast
  with pre show ?thesis by simp
qed

text \<open>
  The claim as the specification states it (dummy frame at handle 1, initial state at
  handle 2) fails in the chain scenario.
\<close>

theorem handles_counterexample:
  "index_of (state_indices (initialise chain (entry_state [] []))) (initial_state chain) \<noteq> 2
   \<and> frame_list (initialise chain (entry_state [] [])) ! 1 \<noteq> dummy_frame
   \<and> frame_list (initialise chain (entry_state [] [])) ! 0 = dummy_frame"
  by (simp add: run_defs scenario_defs)

section \<open>The closed flag\<close>

lemma frames_extend_refl: "frames_extend p fs fs"
  by (auto simp: frames_extend_def)

lemma frames_extend_trans:
  "frames_extend p fs fs' \<Longrightarrow> frames_extend p fs' fs'' \<Longrightarrow> frames_extend p fs fs''"
proof -
  assume a: "frames_extend p fs fs'" and b: "frames_extend p fs' fs''"
  have "closed_flag (fs'' ! j) = is_dead_end p (h_value (fs'' ! j))"
    if "length fs \<le> j" "j < length fs''" for j
  proof (cases "j < length fs'")
    case True
    with a b that show ?thesis by (simp add: frames_extend_def)
  next
    case False
    with b that show ?thesis by (simp add: frames_extend_def)
  qed
  with a b show ?thesis by (auto simp: frames_extend_def)
qed

lemma process_action_extend:
  "process_action p index a st = Inr st' \<Longrightarrow> frames_extend p (frame_list st) (frame_list st')"
  by (auto simp: process_action_def Let_def frames_extend_def nth_append nth_list_update
      split: option.splits if_splits)

lemma for_actions_extend:
  "for_actions p index as st = Inr st' \<Longrightarrow> frames_extend p (frame_list st) (frame_list st')"
proof (induction as arbitrary: st)
  case Nil
  then show ?case by (simp add: frames_extend_refl)
next
  case (Cons a as)
  then show ?case
    by (auto split: sum.splits intro: frames_extend_trans dest: process_action_extend)
qed

lemma report_layer_frames: "report_layer fr st = Inr st' \<Longrightarrow> frame_list st' = frame_list st"
  by (auto simp: report_layer_def Let_def split: if_splits option.splits)


text \<open>What an accepted pop does to the frames.\<close>

lemma loop_body_cases:
  assumes "loop_body p st = Continue st' \<or> loop_body p st = Return r st' \<or> loop_body p st = GoalFound k st'"
  shows "fst (ol_pop p (open_list st)) < length (frame_list st) \<and>
    (if closed_flag (frame_list st ! fst (ol_pop p (open_list st)))
     then st' = st\<lparr>open_list := snd (ol_pop p (open_list st))\<rparr>
     else frames_extend p
            ((frame_list st)[fst (ol_pop p (open_list st)) :=
               (frame_list st ! fst (ol_pop p (open_list st)))\<lparr>closed_flag := True\<rparr>])
            (frame_list st'))"
  using assms
  by (auto simp: loop_body_def Let_def frames_extend_refl
      split: if_splits option.splits sum.splits
      dest!: for_actions_extend report_layer_frames)

lemma dead_branch_first_pass:
  "loop_body dead_branch (initialise dead_branch (entry_state [] [])) =
     Continue
      \<lparr>open_list = [(3, 1)],
       statistics = [''expanded'' \<mapsto> IntStat 0, ''generated'' \<mapsto> IntStat 0,
         ''evaluated'' \<mapsto> IntStat 1, ''max_depth'' \<mapsto> IntStat 0,
         ''max_g_value'' \<mapsto> RealStat 0, ''max_f_value'' \<mapsto> RealStat 1],
       notified = 1, out_plan = [], expanded = 1, generated = 1, evaluated = 3,
       last_f_value = 1, state_indices = [A \<mapsto> 1, B \<mapsto> 2, C \<mapsto> 3],
       frame_list =
         [dummy_frame,
          \<lparr>state = Some A, predecessor_action = None, predecessor_index = - 1, depth = 0,
           g_value = 0, h_value = 1, closed_flag = True\<rparr>,
          \<lparr>state = Some B, predecessor_action = Some (A, B), predecessor_index = 1, depth = 1,
           g_value = 1, h_value = 1000, closed_flag = True\<rparr>,
          \<lparr>state = Some C, predecessor_action = Some (A, C), predecessor_index = 1, depth = 1,
           g_value = 1, h_value = 0, closed_flag = False\<rparr>]\<rparr>"
  by (simp add: run_defs scenario_defs numeral_2_eq_2 numeral_3_eq_3)

text \<open>
  Claim C4, as the code has it. The dummy frame is created closed and the frame of the
  initial state open. In one pass of the loop that does not fail: no frame that was closed
  becomes open; the only old frame that may become closed is the one whose handle was
  popped, and it is closed after the pass; a frame allocated in the pass is created closed
  exactly if its heuristic value is a dead end; and when the popped frame was closed
  already, the pass changes nothing but the open list, so the frame is not expanded again
  whatever was written to it in between.
\<close>

theorem closed_flag_lifecycle:
  assumes "loop_body p st = Continue st' \<or> loop_body p st = Return r st'
           \<or> loop_body p st = GoalFound k st'"
  shows "closed_flag (frame_list (initialise p (entry_state q plan0)) ! 0)
    \<and> \<not> closed_flag (frame_list (initialise p (entry_state q plan0)) ! 1)
    \<and> length (frame_list st) \<le> length (frame_list st')
    \<and> (\<forall>j<length (frame_list st).
          closed_flag (frame_list st ! j) \<longrightarrow> closed_flag (frame_list st' ! j))
    \<and> (\<forall>j<length (frame_list st).
          \<not> closed_flag (frame_list st ! j) \<and> closed_flag (frame_list st' ! j)
          \<longrightarrow> j = fst (ol_pop p (open_list st)))
    \<and> (\<forall>j. length (frame_list st) \<le> j \<and> j < length (frame_list st')
          \<longrightarrow> closed_flag (frame_list st' ! j) = is_dead_end p (h_value (frame_list st' ! j)))
    \<and> closed_flag (frame_list st' ! fst (ol_pop p (open_list st)))
    \<and> (closed_flag (frame_list st ! fst (ol_pop p (open_list st)))
          \<longrightarrow> st' = st\<lparr>open_list := snd (ol_pop p (open_list st))\<rparr>)"
proof -
  let ?i = "fst (ol_pop p (open_list st))"
  have init: "closed_flag (frame_list (initialise p (entry_state q plan0)) ! 0)
    \<and> \<not> closed_flag (frame_list (initialise p (entry_state q plan0)) ! 1)"
    by (simp add: initialise_def entry_state_def dummy_frame_def Let_def)
  from loop_body_cases[OF assms] have i: "?i < length (frame_list st)" by simp
  show ?thesis
  proof (cases "closed_flag (frame_list st ! ?i)")
    case True
    with loop_body_cases[OF assms] have "st' = st\<lparr>open_list := snd (ol_pop p (open_list st))\<rparr>"
      by simp
    with True init show ?thesis by auto
  next
    case False
    with loop_body_cases[OF assms] have
      ext: "frames_extend p ((frame_list st)[?i := (frame_list st ! ?i)\<lparr>closed_flag := True\<rparr>])
              (frame_list st')"
      by simp
    from ext have len: "length (frame_list st) \<le> length (frame_list st')"
      by (simp add: frames_extend_def)
    from ext have old: "\<And>j. j < length (frame_list st) \<Longrightarrow>
        closed_flag (frame_list st' ! j) = (if j = ?i then True else closed_flag (frame_list st ! j))"
      by (auto simp: frames_extend_def nth_list_update)
    from ext have new: "\<And>j. length (frame_list st) \<le> j \<Longrightarrow> j < length (frame_list st')
        \<Longrightarrow> closed_flag (frame_list st' ! j) = is_dead_end p (h_value (frame_list st' ! j))"
      by (simp add: frames_extend_def)
    from init len old new i False show ?thesis by auto
  qed
qed

theorem closed_flag_lifecycle_witness:
  "\<exists>st'. loop_body dead_branch (initialise dead_branch (entry_state [] [])) = Continue st'
      \<and> length (frame_list st') = 4
      \<and> closed_flag (frame_list st' ! 0) \<and> closed_flag (frame_list st' ! 1)
      \<and> closed_flag (frame_list st' ! 2) = is_dead_end dead_branch (h_value (frame_list st' ! 2))
      \<and> closed_flag (frame_list st' ! 3) = is_dead_end dead_branch (h_value (frame_list st' ! 3))"
proof -
  let ?st = "initialise dead_branch (entry_state [] [])"
  obtain st' where st': "loop_body dead_branch ?st = Continue st'" "length (frame_list st') = 4"
    using dead_branch_first_pass by simp
  have pop: "fst (ol_pop dead_branch (open_list ?st)) = 1" "length (frame_list ?st) = 2"
    "closed_flag (frame_list ?st ! 0)"
    by (simp_all add: run_defs scenario_defs)
  from closed_flag_lifecycle[of dead_branch ?st st' ABORTED 0 "[]" "[]"] st' pop
  show ?thesis by (auto simp: numeral_2_eq_2 numeral_3_eq_3 less_Suc_eq)
qed

text \<open>
  The claim as the specification states it fails in \<open>dead_branch\<close>: after the first pass,
  which popped handle 1, the frame of \<open>B\<close> (handle 2) is closed, and its handle was never
  in the open list.
\<close>

theorem closed_flag_counterexample:
  "fst (ol_pop dead_branch (open_list (initialise dead_branch (entry_state [] [])))) = 1
   \<and> loop_body dead_branch (initialise dead_branch (entry_state [] [])) =
     Continue
      \<lparr>open_list = [(3, 1)],
       statistics = [''expanded'' \<mapsto> IntStat 0, ''generated'' \<mapsto> IntStat 0,
         ''evaluated'' \<mapsto> IntStat 1, ''max_depth'' \<mapsto> IntStat 0,
         ''max_g_value'' \<mapsto> RealStat 0, ''max_f_value'' \<mapsto> RealStat 1],
       notified = 1, out_plan = [], expanded = 1, generated = 1, evaluated = 3,
       last_f_value = 1, state_indices = [A \<mapsto> 1, B \<mapsto> 2, C \<mapsto> 3],
       frame_list =
         [dummy_frame,
          \<lparr>state = Some A, predecessor_action = None, predecessor_index = - 1, depth = 0,
           g_value = 0, h_value = 1, closed_flag = True\<rparr>,
          \<lparr>state = Some B, predecessor_action = Some (A, B), predecessor_index = 1, depth = 1,
           g_value = 1, h_value = 1000, closed_flag = True\<rparr>,
          \<lparr>state = Some C, predecessor_action = Some (A, C), predecessor_index = 1, depth = 1,
           g_value = 1, h_value = 0, closed_flag = False\<rparr>]\<rparr>"
  using dead_branch_first_pass by (simp add: run_defs scenario_defs)

section \<open>Dead ends\<close>

text \<open>
  Claim C5 at the input \<open>dead_start\<close>. The heuristic value of the initial state is a dead
  end; its handle is inserted into the open list all the same (the initialisation has no
  dead-end test), and the search expands the frame: \<open>expanded\<close> is \<open>1\<close> when \<open>plan\<close>
  returns.
\<close>

theorem dead_end_initial_state:
  "is_dead_end dead_start (evaluate dead_start (initial_state dead_start))
   \<and> open_list (initialise dead_start (entry_state [] [])) = [(1, 0)]
   \<and> h_value (frame_list (initialise dead_start (entry_state [] [])) ! 1)
       = evaluate dead_start (initial_state dead_start)
   \<and> (\<exists>st. plan dead_start [] [] = Some (Inr (UNSOLVABLE, st)) \<and> expanded st = 1
          \<and> statistics st ''expanded'' = Some (IntStat 0) \<and> notified st = 1)"
  by (simp add: run_defs scenario_defs)

section \<open>Layers\<close>

text \<open>
  Claim C6 at the input \<open>half_steps\<close>. The first pass reports the layer \<open>3/2\<close> and leaves
  \<open>last_f_value = 1\<close>, the value \<open>3/2\<close> converted to \<open>int32_t\<close>. The second pass accepts a
  frame whose f-value is \<open>3/2\<close> again, not more than the f-value of the last report, and
  reports once more.
\<close>

theorem layer_report_fractional:
  "\<exists>st1 st2. loop_body half_steps (initialise half_steps (entry_state [] [])) = Continue st1
     \<and> notified st1 = 1 \<and> statistics st1 ''max_f_value'' = Some (RealStat (3 / 2))
     \<and> last_f_value st1 = 1
     \<and> fst (ol_pop half_steps (open_list st1)) = 2
     \<and> \<not> closed_flag (frame_list st1 ! 2)
     \<and> g_value (frame_list st1 ! 2) + h_value (frame_list st1 ! 2) = 3 / 2
     \<and> loop_body half_steps st1 = Continue st2
     \<and> notified st2 = 2 \<and> statistics st2 ''expanded'' = Some (IntStat 1)"
  by (simp add: run_defs scenario_defs)

section \<open>The plan that is returned\<close>

lemma path_from_append:
  "path_from p s (as @ bs) = (case path_from p s as of None \<Rightarrow> None | Some u \<Rightarrow> path_from p u bs)"
  by (induction as arbitrary: s) auto

lemma path_from_snoc:
  "path_from p s (as @ [a]) = Some t \<longleftrightarrow>
     (\<exists>u. path_from p s as = Some u \<and> a \<in> set (get_applicable_actions p u) \<and> t = apply_action p a u)"
  by (auto simp: path_from_append split: option.splits)

lemma chain_from_unique:
  assumes "chain_from F r i as" and "chain_from F r' i as'"
  shows "r' = r \<and> as' = as"
  using assms
proof (induction arbitrary: as' rule: chain_from.induct)
  case root
  from root.prems root.hyps show ?case by (cases rule: chain_from.cases) auto
next
  case (link i a j acts)
  from link.prems show ?case
  proof (cases rule: chain_from.cases)
    case root
    with link.hyps show ?thesis by simp
  next
    case inner: (link a' j' acts')
    with link.hyps have "a' = a" "j' = j" by simp_all
    with link.IH[of acts'] inner(1,5) show ?thesis by simp
  qed
qed

text \<open>A chain begins at frame 1, and its actions lead from the initial state to the state
  of the frame at which it ends.\<close>

lemma chain_from_path:
  assumes st: "store_inv p F idx" and ch: "chain_from F r i as" and i: "0 < i"
  shows "r = 1 \<and> (\<exists>s. state (F ! i) = Some s \<and> path_from p (initial_state p) as = Some s)"
  using ch i
proof (induction rule: chain_from.induct)
  case root
  have "r = 1"
  proof (rule ccontr)
    assume "r \<noteq> 1"
    with root.prems have "1 < r" by simp
    with st root.hyps show False by (auto simp: store_inv_def)
  qed
  with st show ?case by (simp add: store_inv_def)
next
  case (link i a j acts)
  from st link.hyps(1,2) obtain j' sj where
    j': "predecessor_index (F ! i) = int j'" "0 < j'" "state (F ! j') = Some sj"
      "a \<in> set (get_applicable_actions p sj)" "state (F ! i) = Some (apply_action p a sj)"
    unfolding store_inv_def by blast
  with link.hyps(3) have jj: "j' = j" by simp
  from link.IH j'(2,3) jj have "r = 1" "path_from p (initial_state p) acts = Some sj" by auto
  with j'(4,5) show ?case by (auto simp: path_from_snoc)
qed

lemma reconstruct_chain:
  fixes frames :: "('s, 'a) frame list"
  assumes run: "reconstruct frames cur acc = Some r"
  shows "\<forall>i res. r = Inr res \<longrightarrow> i < length frames \<longrightarrow> cur = frames ! i
           \<longrightarrow> (\<exists>k acts. res = acc @ rev acts \<and> chain_from frames k i acts)"
proof (rule reconstruct.raw_induct[where P = "\<lambda>frames cur acc r.
      \<forall>i res. r = Inr res \<longrightarrow> i < length frames \<longrightarrow> cur = frames ! i
           \<longrightarrow> (\<exists>k acts. res = acc @ rev acts \<and> chain_from frames k i acts)", OF _ run])
  fix walk :: "('s, 'a) frame list \<Rightarrow> ('s, 'a) frame \<Rightarrow> 'a list \<Rightarrow> (error + 'a list) option"
  fix frames :: "('s, 'a) frame list" and cur :: "('s, 'a) frame" and acc :: "'a list"
    and r :: "error + 'a list"
  assume IH: "\<And>frames cur acc r. walk frames cur acc = Some r \<Longrightarrow>
      \<forall>i res. r = Inr res \<longrightarrow> i < length frames \<longrightarrow> cur = frames ! i
           \<longrightarrow> (\<exists>k acts. res = acc @ rev acts \<and> chain_from frames k i acts)"
    and eq: "(case predecessor_action cur of
       None \<Rightarrow> Some (Inr acc)
     | Some action \<Rightarrow>
        if 0 \<le> predecessor_index cur \<and> nat (predecessor_index cur) < length frames
        then walk frames (frames ! nat (predecessor_index cur)) (acc @ [action])
        else Some (Inl FrameIndexOutOfRange)) = Some r"
  show "\<forall>i res. r = Inr res \<longrightarrow> i < length frames \<longrightarrow> cur = frames ! i
           \<longrightarrow> (\<exists>k acts. res = acc @ rev acts \<and> chain_from frames k i acts)"
  proof (intro allI impI)
    fix i res
    assume r: "r = Inr res" and i: "i < length frames" and cur: "cur = frames ! i"
    show "\<exists>k acts. res = acc @ rev acts \<and> chain_from frames k i acts"
    proof (cases "predecessor_action cur")
      case None
      with eq r have "res = acc" by simp
      moreover from None i cur have "chain_from frames i i []"
        by (simp add: chain_from.root)
      ultimately show ?thesis by force
    next
      case (Some a)
      let ?j = "nat (predecessor_index cur)"
      from eq r Some have ok: "0 \<le> predecessor_index cur" "?j < length frames"
        and walk: "walk frames (frames ! ?j) (acc @ [a]) = Some (Inr res)"
        by (auto split: if_splits)
      from IH[OF walk] ok obtain k acts where
        res: "res = (acc @ [a]) @ rev acts" and ch: "chain_from frames k ?j acts"
        by blast
      from ok cur have pj: "predecessor_index (frames ! i) = int ?j" by simp
      from Some cur have pa: "predecessor_action (frames ! i) = Some a" by simp
      have "chain_from frames k i (acts @ [a])"
        by (rule chain_from.link[OF i pa pj ch])
      with res show ?thesis by force
    qed
  qed
qed

lemma store_inv_initial:
  "store_inv p (frame_list (initialise p (entry_state q plan0)))
     (state_indices (initialise p (entry_state q plan0)))"
  by (auto simp: store_inv_def initialise_def entry_state_def dummy_frame_def Let_def nth_append
      less_Suc_eq numeral_2_eq_2)

lemma store_inv_close:
  assumes st: "store_inv p F idx"
  shows "store_inv p (F[i := (F ! i)\<lparr>closed_flag := True\<rparr>]) idx"
proof -
  let ?F = "F[i := (F ! i)\<lparr>closed_flag := True\<rparr>]"
  have same: "state (?F ! k) = state (F ! k)" "predecessor_action (?F ! k) = predecessor_action (F ! k)"
    "predecessor_index (?F ! k) = predecessor_index (F ! k)" if "k < length F" for k
    using that by (cases "k = i"; simp)+
  have cl: "closed_flag (?F ! k)" if "k < length F" "closed_flag (F ! k)" for k
    using that by (cases "k = i") simp_all
  from st have n2: "0 < length F" "1 < length F" by (auto simp: store_inv_def)
  from st n2 same(1)[of 1] cl[of 0] have s0: "2 \<le> length ?F" "closed_flag (?F ! 0)"
    "state (?F ! 1) = Some (initial_state p)"
    by (simp_all add: store_inv_def)
  have s1: "0 < k \<and> k < length ?F \<and> state (?F ! k) = Some s" if "idx s = Some k" for s k
  proof -
    from st that have "0 < k" "k < length F" "state (F ! k) = Some s" by (auto simp: store_inv_def)
    with same(1)[of k] show ?thesis by simp
  qed
  have s2: "\<exists>j sj. predecessor_index (?F ! k) = int j \<and> 0 < j \<and> j < length ?F
              \<and> state (?F ! j) = Some sj \<and> b \<in> set (get_applicable_actions p sj)
              \<and> state (?F ! k) = Some (apply_action p b sj)"
    if k: "k < length ?F" "predecessor_action (?F ! k) = Some b" for k b
  proof -
    from k same(2)[of k] have kl: "k < length F" "predecessor_action (F ! k) = Some b" by simp_all
    with st obtain j sj where j: "predecessor_index (F ! k) = int j" "0 < j" "j < length F"
      "state (F ! j) = Some sj" "b \<in> set (get_applicable_actions p sj)"
      "state (F ! k) = Some (apply_action p b sj)"
      unfolding store_inv_def by blast
    with kl same(1)[of j] same(1)[of k] same(3)[of k] show ?thesis
      by (intro exI[of _ j] exI[of _ sj]) simp
  qed
  have s3: "predecessor_action (?F ! k) \<noteq> None" if "1 < k" "k < length ?F" for k
    using that st same(2)[of k] by (auto simp: store_inv_def)
  show ?thesis unfolding store_inv_def using s0 s1 s2 s3 by blast
qed

lemma store_inv_new:
  assumes st: "store_inv p F idx" and x: "0 < x" "x < length F" "state (F ! x) = Some fs"
    and a: "a \<in> set (get_applicable_actions p fs)"
    and new: "idx (apply_action p a fs) = None"
    and fr: "state fr = Some (apply_action p a fs)" "predecessor_action fr = Some a"
      "predecessor_index fr = int x"
  shows "store_inv p (F @ [fr]) (idx(apply_action p a fs \<mapsto> length F))"
proof -
  from st have n2: "2 \<le> length F" "0 < length F" "1 < length F" by (auto simp: store_inv_def)
  have s1: "0 < i \<and> i < length (F @ [fr]) \<and> state ((F @ [fr]) ! i) = Some s"
    if "(idx(apply_action p a fs \<mapsto> length F)) s = Some i" for s i
  proof (cases "s = apply_action p a fs")
    case True
    with that have "i = length F" by simp
    with True fr(1) n2 show ?thesis by simp
  next
    case False
    with that have "idx s = Some i" by simp
    with st have "0 < i" "i < length F" "state (F ! i) = Some s" by (auto simp: store_inv_def)
    then show ?thesis by (simp add: nth_append)
  qed
  have s2: "\<exists>j sj. predecessor_index ((F @ [fr]) ! i) = int j \<and> 0 < j \<and> j < length (F @ [fr])
              \<and> state ((F @ [fr]) ! j) = Some sj \<and> b \<in> set (get_applicable_actions p sj)
              \<and> state ((F @ [fr]) ! i) = Some (apply_action p b sj)"
    if i: "i < length (F @ [fr])" "predecessor_action ((F @ [fr]) ! i) = Some b" for i b
  proof (cases "i = length F")
    case True
    with i fr x a show ?thesis
      by (intro exI[of _ x] exI[of _ fs]) (simp add: nth_append)
  next
    case False
    with i have il: "i < length F" "predecessor_action (F ! i) = Some b"
      by (simp_all add: nth_append)
    with st obtain j sj where "predecessor_index (F ! i) = int j" "0 < j" "j < length F"
      "state (F ! j) = Some sj" "b \<in> set (get_applicable_actions p sj)"
      "state (F ! i) = Some (apply_action p b sj)"
      unfolding store_inv_def by blast
    with il show ?thesis
      by (intro exI[of _ j] exI[of _ sj]) (simp add: nth_append)
  qed
  have s3: "predecessor_action ((F @ [fr]) ! i) \<noteq> None" if "1 < i" "i < length (F @ [fr])" for i
    using that st fr(2) by (cases "i = length F") (auto simp: store_inv_def nth_append)
  from st n2 have s0: "2 \<le> length (F @ [fr])" "closed_flag ((F @ [fr]) ! 0)"
    "state ((F @ [fr]) ! 1) = Some (initial_state p)"
    by (simp_all add: store_inv_def nth_append)
  show ?thesis unfolding store_inv_def using s0 s1 s2 s3 by blast
qed

lemma store_inv_update:
  assumes st: "store_inv p F idx" and x: "0 < x" "x < length F" "state (F ! x) = Some fs"
    and a: "a \<in> set (get_applicable_actions p fs)"
    and seen: "idx (apply_action p a fs) = Some j"
    and fr: "state fr = state (F ! j)" "closed_flag fr = closed_flag (F ! j)"
      "predecessor_action fr = Some a" "predecessor_index fr = int x"
  shows "store_inv p (F[j := fr]) idx"
proof -
  from st seen have j: "0 < j" "j < length F" "state (F ! j) = Some (apply_action p a fs)"
    by (auto simp: store_inv_def)
  have same: "state (F[j := fr] ! i) = state (F ! i)" "closed_flag (F[j := fr] ! i) = closed_flag (F ! i)"
    if "i < length F" for i
    using that fr(1,2) by (cases "i = j"; simp)+
  have s2: "\<exists>k sk. predecessor_index (F[j := fr] ! i) = int k \<and> 0 < k \<and> k < length (F[j := fr])
              \<and> state (F[j := fr] ! k) = Some sk \<and> b \<in> set (get_applicable_actions p sk)
              \<and> state (F[j := fr] ! i) = Some (apply_action p b sk)"
    if i: "i < length (F[j := fr])" "predecessor_action (F[j := fr] ! i) = Some b" for i b
  proof (cases "i = j")
    case True
    with i fr j x a same(1)[of x] same(1)[of j] show ?thesis
      by (intro exI[of _ x] exI[of _ fs]) simp
  next
    case False
    with i have il: "i < length F" "predecessor_action (F ! i) = Some b" by simp_all
    with st obtain k sk where k: "predecessor_index (F ! i) = int k" "0 < k" "k < length F"
      "state (F ! k) = Some sk" "b \<in> set (get_applicable_actions p sk)"
      "state (F ! i) = Some (apply_action p b sk)"
      unfolding store_inv_def by blast
    with il False same(1)[of k] same(1)[of i] show ?thesis
      by (intro exI[of _ k] exI[of _ sk]) simp
  qed
  have s3: "predecessor_action (F[j := fr] ! i) \<noteq> None" if "1 < i" "i < length (F[j := fr])" for i
    using that st fr(3) by (cases "i = j") (auto simp: store_inv_def)
  from st have n2: "0 < length F" "1 < length F" by (auto simp: store_inv_def)
  from st n2 same[of 0] same[of 1] have s0: "2 \<le> length (F[j := fr])" "closed_flag (F[j := fr] ! 0)"
    "state (F[j := fr] ! 1) = Some (initial_state p)"
    by (simp_all add: store_inv_def)
  have s1: "0 < i \<and> i < length (F[j := fr]) \<and> state (F[j := fr] ! i) = Some s"
    if "idx s = Some i" for s i
  proof -
    from st that have "0 < i" "i < length F" "state (F ! i) = Some s" by (auto simp: store_inv_def)
    with same(1)[of i] show ?thesis by simp
  qed
  show ?thesis unfolding store_inv_def using s0 s1 s2 s3 by blast
qed

lemma index_of_Some:
  assumes "index_of idx s \<noteq> 0"
  shows "idx s = Some (index_of idx s)"
  using assms by (cases "idx s") (simp_all add: index_of_def)

lemma process_action_store:
  assumes st: "store_inv p (frame_list st) (state_indices st)"
    and x: "0 < x" "x < length (frame_list st)" "state (frame_list st ! x) = Some fs"
    and a: "a \<in> set (get_applicable_actions p fs)"
    and run: "process_action p x a st = Inr st'"
  shows "store_inv p (frame_list st') (state_indices st')"
proof (cases "index_of (state_indices st) (apply_action p a fs) = 0")
  case True
  have new: "state_indices st (apply_action p a fs) = None"
  proof (cases "state_indices st (apply_action p a fs)")
    case (Some i)
    with st have "0 < i" by (auto simp: store_inv_def)
    with Some True show ?thesis by (simp add: index_of_def)
  qed simp
  let ?fr = "\<lparr>state = Some (apply_action p a fs), predecessor_action = Some a,
               predecessor_index = int x, depth = depth (frame_list st ! x) + 1,
               g_value = double_add (g_value (frame_list st ! x)) (cost p a),
               h_value = evaluate p (apply_action p a fs),
               closed_flag = is_dead_end p (evaluate p (apply_action p a fs))\<rparr>"
  from run True x(3) have st': "frame_list st' = frame_list st @ [?fr]"
      "state_indices st' = (state_indices st)(apply_action p a fs \<mapsto> length (frame_list st))"
    by (auto simp: process_action_def Let_def split: if_splits)
  have "store_inv p (frame_list st @ [?fr])
     ((state_indices st)(apply_action p a fs \<mapsto> length (frame_list st)))"
    by (rule store_inv_new[OF st x a new]) simp_all
  with st' show ?thesis by simp
next
  case False
  let ?j = "index_of (state_indices st) (apply_action p a fs)"
  from index_of_Some[OF False] have seen: "state_indices st (apply_action p a fs) = Some ?j" .
  with st have jl: "?j < length (frame_list st)" by (auto simp: store_inv_def)
  show ?thesis
  proof (cases "frame_list st' = frame_list st")
    case True
    moreover from run False x(3) jl have "state_indices st' = state_indices st"
      by (auto simp: process_action_def Let_def split: if_splits)
    ultimately show ?thesis using st by simp
  next
    case changed: False
    let ?fr = "(frame_list st ! ?j)\<lparr>predecessor_action := Some a, predecessor_index := int x,
                 depth := depth (frame_list st ! x) + 1,
                 g_value := double_add (g_value (frame_list st ! x)) (cost p a)\<rparr>"
    from run False x(3) jl changed have st': "frame_list st' = (frame_list st)[?j := ?fr]"
      "state_indices st' = state_indices st"
      by (auto simp: process_action_def Let_def split: if_splits)
    have "store_inv p ((frame_list st)[?j := ?fr]) (state_indices st)"
      by (rule store_inv_update[OF st x a seen]) simp_all
    with st' show ?thesis by simp
  qed
qed

lemma for_actions_store:
  "store_inv p (frame_list st) (state_indices st) \<Longrightarrow> 0 < x \<Longrightarrow> x < length (frame_list st)
    \<Longrightarrow> state (frame_list st ! x) = Some fs \<Longrightarrow> set as \<subseteq> set (get_applicable_actions p fs)
    \<Longrightarrow> for_actions p x as st = Inr st'
    \<Longrightarrow> store_inv p (frame_list st') (state_indices st')"
proof (induction as arbitrary: st)
  case Nil
  then show ?case by simp
next
  case (Cons a as)
  from Cons.prems(6) obtain st1 where st1: "process_action p x a st = Inr st1"
    and rest: "for_actions p x as st1 = Inr st'"
    by (auto split: sum.splits)
  from Cons.prems(5) have a: "a \<in> set (get_applicable_actions p fs)"
    and as: "set as \<subseteq> set (get_applicable_actions p fs)" by simp_all
  from process_action_store[OF Cons.prems(1-4) a st1]
  have inv1: "store_inv p (frame_list st1) (state_indices st1)" .
  from process_action_extend[OF st1] Cons.prems(3,4)
  have x1: "x < length (frame_list st1)" "state (frame_list st1 ! x) = Some fs"
    by (auto simp: frames_extend_def)
  from Cons.IH[OF inv1 Cons.prems(2) x1 as rest] show ?case .
qed

lemma report_layer_indices:
  "report_layer fr st = Inr st' \<Longrightarrow> state_indices st' = state_indices st"
  by (auto simp: report_layer_def Let_def split: if_splits option.splits)

lemma report_layer_expanded: "report_layer fr st = Inr st' \<Longrightarrow> expanded st' = expanded st"
  by (auto simp: report_layer_def Let_def split: if_splits option.splits)

text \<open>What is known when a pass ends at line 95 with the goal recognised.\<close>

lemma loop_body_goal:
  assumes "loop_body p st = GoalFound i st'"
  shows "i = fst (ol_pop p (open_list st))" "i < length (frame_list st)"
    "\<not> closed_flag (frame_list st ! i)"
    "frame_list st' = (frame_list st)[i := (frame_list st ! i)\<lparr>closed_flag := True\<rparr>]"
    "state_indices st' = state_indices st"
    "\<exists>s. state (frame_list st ! i) = Some s \<and> goal_holds p s"
  using assms
  by (auto simp: loop_body_def Let_def split: if_splits option.splits sum.splits
      dest: report_layer_frames report_layer_indices)

lemma loop_body_store:
  assumes st: "store_inv p (frame_list st) (state_indices st)"
    and run: "loop_body p st = Continue st'"
  shows "store_inv p (frame_list st') (state_indices st')"
proof -
  let ?i = "fst (ol_pop p (open_list st))"
  let ?F = "(frame_list st)[?i := (frame_list st ! ?i)\<lparr>closed_flag := True\<rparr>]"
  from run have il: "?i < length (frame_list st)"
    by (auto simp: loop_body_def Let_def split: if_splits)
  show ?thesis
  proof (cases "closed_flag (frame_list st ! ?i)")
    case True
    with run il have "st' = st\<lparr>open_list := snd (ol_pop p (open_list st))\<rparr>"
      by (simp add: loop_body_def Let_def)
    with st show ?thesis by simp
  next
    case False
    from st False have i0: "0 < ?i" by (cases "?i = 0") (auto simp: store_inv_def)
    from run il False obtain st3 fs where
      rep: "report_layer (frame_list st ! ?i)
              (st\<lparr>open_list := snd (ol_pop p (open_list st)), frame_list := ?F\<rparr>) = Inr st3"
      and fs: "state (frame_list st ! ?i) = Some fs"
      and acts: "for_actions p ?i (get_applicable_actions p fs) (st3\<lparr>expanded := expanded st3 + 1\<rparr>)
                  = Inr st'"
      by (auto simp: loop_body_def Let_def split: if_splits option.splits sum.splits)
    from report_layer_frames[OF rep] report_layer_indices[OF rep]
    have st3: "frame_list st3 = ?F" "state_indices st3 = state_indices st" by simp_all
    from store_inv_close[OF st, of ?i] st3
    have inv3: "store_inv p (frame_list (st3\<lparr>expanded := expanded st3 + 1\<rparr>))
                 (state_indices (st3\<lparr>expanded := expanded st3 + 1\<rparr>))" by simp
    from il fs st3 have x3: "?i < length (frame_list (st3\<lparr>expanded := expanded st3 + 1\<rparr>))"
      "state (frame_list (st3\<lparr>expanded := expanded st3 + 1\<rparr>) ! ?i) = Some fs"
      by simp_all
    from for_actions_store[OF inv3 i0 x3 subset_refl acts] show ?thesis .
  qed
qed

lemma chain_run:
  "\<exists>st. plan chain [] [] = Some (Inr (SOLVED, st)) \<and> out_plan st = [(A, B), (B, C)]
      \<and> expanded st = 2 \<and> evaluated st = 3 \<and> generated st = 2"
  by (simp add: run_defs scenario_defs)

lemma chain_frames:
  "\<exists>st. plan chain [] [] = Some (Inr (SOLVED, st)) \<and> out_plan st = [(A, B), (B, C)]
      \<and> length (frame_list st) = 4 \<and> state (frame_list st ! 0) = None
      \<and> state (frame_list st ! 1) = Some A
      \<and> state (frame_list st ! 2) = Some B \<and> state (frame_list st ! 3) = Some C"
  by (simp add: run_defs scenario_defs)

lemma two_goals_run:
  "\<exists>st. plan two_goals [] [] = Some (Inr (SOLVED, st)) \<and> out_plan st = [(A, C)]
      \<and> length (frame_list st) = 4 \<and> state (frame_list st ! 0) = None
      \<and> state (frame_list st ! 1) = Some A
      \<and> state (frame_list st ! 2) = Some D \<and> state (frame_list st ! 3) = Some C
      \<and> \<not> closed_flag (frame_list st ! 2)"
  by (simp add: run_defs scenario_defs)

lemma plan_solved_chain:
  fixes p :: "('s, 'a, 'q) engine"
  assumes run: "plan p q plan0 = Some (Inr (SOLVED, st))"
  shows "\<exists>pre i s. passes p (initialise p (entry_state q plan0)) pre
          \<and> 0 < ol_size p (open_list pre)
          \<and> loop_body p pre = GoalFound i (st\<lparr>out_plan := plan0\<rparr>)
          \<and> i = fst (ol_pop p (open_list pre))
          \<and> i < length (frame_list pre) \<and> \<not> closed_flag (frame_list pre ! i)
          \<and> frame_list st = (frame_list pre)[i := (frame_list pre ! i)\<lparr>closed_flag := True\<rparr>]
          \<and> state (frame_list st ! i) = Some s \<and> goal_holds p s
          \<and> state (frame_list st ! 1) = Some (initial_state p)
          \<and> chain_from (frame_list st) 1 i (out_plan st)
          \<and> (\<forall>r acts. chain_from (frame_list st) r i acts \<longrightarrow> r = 1 \<and> acts = out_plan st)
          \<and> path_from p (initial_state p) (out_plan st) = Some s"
proof -
  let ?st0 = "initialise p (entry_state q plan0)"
  let ?I = "\<lambda>st :: ('s, 'a, 'q) search_state. passes p ?st0 st
      \<and> store_inv p (frame_list st) (state_indices st) \<and> out_plan st = plan0"
  let ?Q = "\<lambda>res :: error + search_result \<times> ('s, 'a, 'q) search_state.
      \<forall>st. res = Inr (SOLVED, st) \<longrightarrow>
      (\<exists>pre i s. passes p ?st0 pre
          \<and> 0 < ol_size p (open_list pre)
          \<and> loop_body p pre = GoalFound i (st\<lparr>out_plan := plan0\<rparr>)
          \<and> i = fst (ol_pop p (open_list pre))
          \<and> i < length (frame_list pre) \<and> \<not> closed_flag (frame_list pre ! i)
          \<and> frame_list st = (frame_list pre)[i := (frame_list pre ! i)\<lparr>closed_flag := True\<rparr>]
          \<and> state (frame_list st ! i) = Some s \<and> goal_holds p s
          \<and> state (frame_list st ! 1) = Some (initial_state p)
          \<and> chain_from (frame_list st) 1 i (out_plan st)
          \<and> (\<forall>r acts. chain_from (frame_list st) r i acts \<longrightarrow> r = 1 \<and> acts = out_plan st)
          \<and> path_from p (initial_state p) (out_plan st) = Some s)"
  from run have loop: "search_loop p ?st0 = Some (Inr (SOLVED, st))"
    by (simp add: plan_def split: if_splits)
  have "?Q (Inr (SOLVED, st))"
  proof (rule search_loop_rule[OF loop, where I = ?I and Q = ?Q])
    show "?I ?st0"
      using store_inv_initial[of p q plan0]
      by (simp add: passes.start) (simp add: initialise_def entry_state_def Let_def)
  next
    fix st1 st2 :: "('s, 'a, 'q) search_state"
    assume inv: "?I st1" and size: "0 < ol_size p (open_list st1)"
      and body: "loop_body p st1 = Continue st2"
    from inv size body have "passes p ?st0 st2" by (blast intro: passes.pass)
    moreover from inv body have "store_inv p (frame_list st2) (state_indices st2)"
      by (blast intro: loop_body_store)
    moreover from inv loop_body_out_plan(1)[OF body] have "out_plan st2 = plan0" by simp
    ultimately show "?I st2" by simp
  next
    fix pre :: "('s, 'a, 'q) search_state" and i st' res
    assume inv: "?I pre" and size: "0 < ol_size p (open_list pre)"
      and gf: "loop_body p pre = GoalFound i st'" and gb: "goal_branch i st' = Some res"
    show "?Q res"
    proof (intro allI impI)
      fix st1 assume res: "res = Inr (SOLVED, st1)"
      from gb res obtain collected where
        rc: "reconstruct (frame_list st') (frame_list st' ! i) [] = Some (Inr collected)"
        and st1: "st1 = st'\<lparr>out_plan := rev collected\<rparr>"
        by (auto simp: goal_branch_def split: option.splits sum.splits)
      note g = loop_body_goal[OF gf]
      from g(6) obtain s where s: "state (frame_list pre ! i) = Some s" "goal_holds p s" by blast
      from inv have store: "store_inv p (frame_list pre) (state_indices pre)" by simp
      from store g(3) have i0: "0 < i" by (cases "i = 0") (auto simp: store_inv_def)
      from store_inv_close[OF store, of i] g(4,5)
      have store': "store_inv p (frame_list st') (state_indices st')" by simp
      from g(2,4) have il: "i < length (frame_list st')" by simp
      from reconstruct_chain[OF rc] il obtain k acts where
        acts: "collected = rev acts" "chain_from (frame_list st') k i acts" by force
      from chain_from_path[OF store' acts(2) i0] obtain s' where
        k: "k = 1" and s': "state (frame_list st' ! i) = Some s'"
          "path_from p (initial_state p) acts = Some s'"
        by blast
      from g(2,4) s(1) s'(1) have ss: "s' = s" by simp
      have uniq: "r = 1 \<and> acts' = acts" if "chain_from (frame_list st') r i acts'" for r acts'
        using chain_from_unique[OF acts(2) that] k by simp
      from inv loop_body_out_plan(3)[OF gf] have "out_plan st' = plan0" by simp
      then have restore: "st1\<lparr>out_plan := plan0\<rparr> = st'" by (simp add: st1)
      from store' have init: "state (frame_list st' ! 1) = Some (initial_state p)"
        by (simp add: store_inv_def)
      from inv have reach: "passes p ?st0 pre" by simp
      have fl: "frame_list st1 = frame_list st'" and op: "out_plan st1 = acts"
        by (simp_all add: st1 acts(1))
      show "\<exists>pre i s. passes p ?st0 pre
          \<and> 0 < ol_size p (open_list pre)
          \<and> loop_body p pre = GoalFound i (st1\<lparr>out_plan := plan0\<rparr>)
          \<and> i = fst (ol_pop p (open_list pre))
          \<and> i < length (frame_list pre) \<and> \<not> closed_flag (frame_list pre ! i)
          \<and> frame_list st1 = (frame_list pre)[i := (frame_list pre ! i)\<lparr>closed_flag := True\<rparr>]
          \<and> state (frame_list st1 ! i) = Some s \<and> goal_holds p s
          \<and> state (frame_list st1 ! 1) = Some (initial_state p)
          \<and> chain_from (frame_list st1) 1 i (out_plan st1)
          \<and> (\<forall>r acts. chain_from (frame_list st1) r i acts \<longrightarrow> r = 1 \<and> acts = out_plan st1)
          \<and> path_from p (initial_state p) (out_plan st1) = Some s"
        unfolding fl op restore
      proof (intro exI[of _ pre] exI[of _ i] exI[of _ s] conjI allI impI)
        fix r acts' assume "chain_from (frame_list st') r i acts'"
        from uniq[OF this] show "r = 1" "acts' = acts" by simp_all
      qed (use reach size gf g(1,2,3,4) s'(1) s(2) init acts(2) s'(2) in \<open>simp_all add: k ss\<close>)
    qed
  next
    fix st0 :: "('s, 'a, 'q) search_state" and r st'
    assume "loop_body p st0 = Return r st'"
    then have "r = ABORTED"
      by (auto simp: loop_body_def Let_def split: if_splits option.splits sum.splits)
    then show "?Q (Inr (r, st'))" by simp
  qed auto
  then show ?thesis by simp
qed

text \<open>
  Claim C7. Whenever \<open>plan\<close> returns \<open>SOLVED\<close>, the loop has reached a state \<open>pre\<close> in which
  the pass popped the handle \<open>i\<close> of an open frame and recognised the goal in its state:
  this is the goal frame. The frames at the return are those of \<open>pre\<close> with frame \<open>i\<close>
  closed, and \<open>out_plan\<close> is the sequence of the actions of the predecessor chain of frame
  \<open>i\<close> in forward order: the chain begins at frame 1, the frame of the initial state, it
  is the only chain of frame \<open>i\<close>, and its actions, applied one after the other from the
  initial state, lead to the state of the goal frame. And in the chain scenario \<open>plan\<close>
  returns \<open>SOLVED\<close> with the plan \<open>[A \<rightarrow> B, B \<rightarrow> C]\<close> and the counters \<open>expanded = 2\<close>,
  \<open>evaluated = 3\<close> and \<open>generated = 2\<close>.
\<close>

theorem solved_plan:
  "(plan p q plan0 = Some (Inr (SOLVED, st)) \<longrightarrow>
      (\<exists>pre i s. passes p (initialise p (entry_state q plan0)) pre
          \<and> 0 < ol_size p (open_list pre)
          \<and> loop_body p pre = GoalFound i (st\<lparr>out_plan := plan0\<rparr>)
          \<and> i = fst (ol_pop p (open_list pre))
          \<and> i < length (frame_list pre) \<and> \<not> closed_flag (frame_list pre ! i)
          \<and> frame_list st = (frame_list pre)[i := (frame_list pre ! i)\<lparr>closed_flag := True\<rparr>]
          \<and> state (frame_list st ! i) = Some s \<and> goal_holds p s
          \<and> state (frame_list st ! 1) = Some (initial_state p)
          \<and> chain_from (frame_list st) 1 i (out_plan st)
          \<and> (\<forall>r acts. chain_from (frame_list st) r i acts \<longrightarrow> r = 1 \<and> acts = out_plan st)
          \<and> path_from p (initial_state p) (out_plan st) = Some s))
   \<and> (\<exists>st. plan chain [] [] = Some (Inr (SOLVED, st)) \<and> out_plan st = [(A, B), (B, C)]
          \<and> expanded st = 2 \<and> evaluated st = 3 \<and> generated st = 2)"
  using plan_solved_chain[of p q plan0 st] chain_run by blast

text \<open>
  In the chain scenario the goal frame is frame 3. With the two goal states of
  \<open>two_goals\<close>, the frame of \<open>D\<close> (handle 2) is allocated first and never popped; the goal
  frame is the frame of \<open>C\<close> (handle 3), and the plan is its chain \<open>[A \<rightarrow> C]\<close>.
\<close>

theorem solved_plan_witness:
  "(\<exists>st. plan chain [] [] = Some (Inr (SOLVED, st)) \<and> out_plan st = [(A, B), (B, C)]
      \<and> chain_from (frame_list st) 1 3 [(A, B), (B, C)]
      \<and> state (frame_list st ! 3) = Some C
      \<and> path_from chain A [(A, B), (B, C)] = Some C)
   \<and> (\<exists>st. plan two_goals [] [] = Some (Inr (SOLVED, st)) \<and> out_plan st = [(A, C)]
      \<and> chain_from (frame_list st) 1 3 [(A, C)]
      \<and> state (frame_list st ! 3) = Some C \<and> state (frame_list st ! 2) = Some D
      \<and> \<not> closed_flag (frame_list st ! 2))"
proof -
  have c: "\<exists>st. plan chain [] [] = Some (Inr (SOLVED, st)) \<and> out_plan st = [(A, B), (B, C)]
      \<and> chain_from (frame_list st) 1 3 [(A, B), (B, C)]
      \<and> state (frame_list st ! 3) = Some C
      \<and> path_from chain A [(A, B), (B, C)] = Some C"
  proof -
    from chain_frames obtain st where
      st: "plan chain [] [] = Some (Inr (SOLVED, st))" "out_plan st = [(A, B), (B, C)]"
        "length (frame_list st) = 4" "state (frame_list st ! 0) = None"
        "state (frame_list st ! 1) = Some A" "state (frame_list st ! 2) = Some B"
        "state (frame_list st ! 3) = Some C"
      by blast
    note th = solved_plan[of chain "[]" "[]" st, THEN conjunct1, rule_format, OF st(1)]
    from th obtain pre :: "(node, node \<times> node, (nat \<times> real) list) search_state" and i s where
      i: "i < length (frame_list pre)"
        "frame_list st = (frame_list pre)[i := (frame_list pre ! i)\<lparr>closed_flag := True\<rparr>]"
        "state (frame_list st ! i) = Some s"
        "chain_from (frame_list st) 1 i (out_plan st)"
        "path_from chain (initial_state chain) (out_plan st) = Some s"
      by blast
    from i(5) st(2) have s: "s = C" by (simp add: scenario_defs)
    from i(1,2) st(3) have "i < 4" by simp
    then have "i = 0 \<or> i = 1 \<or> i = 2 \<or> i = 3" by auto
    with i(3) s st(4-7) have "i = 3" by auto
    with st i s show ?thesis by (auto simp: scenario_defs)
  qed
  have g: "\<exists>st. plan two_goals [] [] = Some (Inr (SOLVED, st)) \<and> out_plan st = [(A, C)]
      \<and> chain_from (frame_list st) 1 3 [(A, C)]
      \<and> state (frame_list st ! 3) = Some C \<and> state (frame_list st ! 2) = Some D
      \<and> \<not> closed_flag (frame_list st ! 2)"
  proof -
    from two_goals_run obtain st where
      st: "plan two_goals [] [] = Some (Inr (SOLVED, st))" "out_plan st = [(A, C)]"
        "length (frame_list st) = 4" "state (frame_list st ! 0) = None"
        "state (frame_list st ! 1) = Some A"
        "state (frame_list st ! 2) = Some D" "state (frame_list st ! 3) = Some C"
        "\<not> closed_flag (frame_list st ! 2)"
      by blast
    note th = solved_plan[of two_goals "[]" "[]" st, THEN conjunct1, rule_format, OF st(1)]
    from th obtain pre :: "(node, node \<times> node, (nat \<times> real) list) search_state" and i s where
      i: "i < length (frame_list pre)"
        "frame_list st = (frame_list pre)[i := (frame_list pre ! i)\<lparr>closed_flag := True\<rparr>]"
        "state (frame_list st ! i) = Some s"
        "chain_from (frame_list st) 1 i (out_plan st)"
        "path_from two_goals (initial_state two_goals) (out_plan st) = Some s"
      by blast
    from i(5) st(2) have s: "s = C" by (simp add: scenario_defs)
    from i(1,2) st(3) have "i < 4" by simp
    then have "i = 0 \<or> i = 1 \<or> i = 2 \<or> i = 3" by auto
    with i(3) s st(4-7) have "i = 3" by auto
    with st i s show ?thesis by auto
  qed
  from c g show ?thesis by (rule conjI)
qed

section \<open>A successor state seen before\<close>

text \<open>
  Claim C8. When an action leads to a state with a handle \<open>j\<close> (not \<open>0\<close>) and the
  candidate cost \<open>g + cost\<close> is smaller than the \<open>g_value\<close> of frame \<open>j\<close>, the frame gets the
  new predecessor action, predecessor index, depth and \<open>g_value\<close>, and nothing else changes
  if its heuristic value is a dead end; if it is not, the entry \<open>(j, candidate + h)\<close> is
  inserted as well and \<open>generated\<close> is incremented. When the candidate is not smaller, the
  state is unchanged. In no case is anything removed from the open list. The two sums are
  sums of doubles, as the code computes them.
\<close>

theorem rediscovery:
  assumes "state (frame_list st ! index) = Some fs"
    and "index_of (state_indices st) (apply_action p a fs) = j"
    and "j \<noteq> 0" and "j < length (frame_list st)"
  shows "process_action p index a st =
     Inr (if double_add (g_value (frame_list st ! index)) (cost p a) < g_value (frame_list st ! j)
          then
            if is_dead_end p (h_value (frame_list st ! j))
            then st\<lparr>frame_list := (frame_list st)[j := (frame_list st ! j)
                      \<lparr>predecessor_action := Some a, predecessor_index := int index,
                        depth := depth (frame_list st ! index) + 1,
                        g_value := double_add (g_value (frame_list st ! index)) (cost p a)\<rparr>]\<rparr>
            else st\<lparr>frame_list := (frame_list st)[j := (frame_list st ! j)
                      \<lparr>predecessor_action := Some a, predecessor_index := int index,
                        depth := depth (frame_list st ! index) + 1,
                        g_value := double_add (g_value (frame_list st ! index)) (cost p a)\<rparr>],
                    open_list := ol_insert p j
                      (double_add (double_add (g_value (frame_list st ! index)) (cost p a))
                         (h_value (frame_list st ! j)))
                      (open_list st),
                    generated := generated st + 1\<rparr>
          else st)"
  using assms by (simp add: process_action_def Let_def)

theorem rediscovery_witness:
  "process_action two_routes 3 (B, D) rediscovery_state =
     Inr (rediscovery_state\<lparr>frame_list := (frame_list rediscovery_state)[2 :=
            \<lparr>state = Some D, predecessor_action = Some (B, D), predecessor_index = 3, depth = 2,
             g_value = 2, h_value = 0, closed_flag = False\<rparr>],
          open_list := [(2, 5), (2, 2)], generated := 3\<rparr>)"
  using rediscovery[of rediscovery_state 3 B two_routes "(B, D)" 2]
  by (simp add: rediscovery_state_def scenario_defs index_of_def double_add_halves)

section \<open>Optimality\<close>

subsection \<open>Paths\<close>

lemma plan_cost_simps [simp]:
  "plan_cost p [] = 0" "plan_cost p (as @ bs) = plan_cost p as + plan_cost p bs"
  "plan_cost p (a # as) = cost p a + plan_cost p as"
  by (simp_all add: plan_cost_def)


lemma reachable_step:
  "s \<in> reachable p \<Longrightarrow> a \<in> set (get_applicable_actions p s) \<Longrightarrow> apply_action p a s \<in> reachable p"
  unfolding reachable_def by (auto dest: path_from_snoc[THEN iffD2, OF exI, OF conjI, OF _ conjI, OF _ _ refl])

lemma reachable_path:
  assumes "s \<in> reachable p" "path_from p s as = Some t"
  shows "t \<in> reachable p"
proof -
  from assms(1) obtain bs where "path_from p (initial_state p) bs = Some s"
    by (auto simp: reachable_def)
  with assms(2) have "path_from p (initial_state p) (bs @ as) = Some t"
    by (simp add: path_from_append)
  then show ?thesis unfolding reachable_def by blast
qed

lemma reaches_goal_back:
  assumes "path_from p s as = Some t" "reaches_goal p t"
  shows "reaches_goal p s"
proof -
  from assms(2) obtain bs u where "path_from p t bs = Some u" "goal_holds p u"
    by (auto simp: reaches_goal_def)
  with assms(1) have "path_from p s (as @ bs) = Some u \<and> goal_holds p u"
    by (simp add: path_from_append)
  then show ?thesis unfolding reaches_goal_def by blast
qed

lemma reaches_goal_step:
  "a \<in> set (get_applicable_actions p s) \<Longrightarrow> reaches_goal p (apply_action p a s) \<Longrightarrow> reaches_goal p s"
  using reaches_goal_back[of p s "[a]"] by simp



lemma not_dead_end_if_reaches_goal:
  "admissible p \<Longrightarrow> s \<in> reachable p \<Longrightarrow> reaches_goal p s \<Longrightarrow> \<not> is_dead_end p (evaluate p s)"
  unfolding admissible_def reaches_goal_def by blast


text \<open>Consistency along a path whose end can reach a goal.\<close>

lemma consistent_path:
  assumes "consistent p" "admissible p" "s \<in> reachable p" "path_from p s as = Some t" "reaches_goal p t"
  shows "evaluate p s \<le> plan_cost p as + evaluate p t"
  using assms(3,4)
proof (induction as arbitrary: s)
  case Nil
  then show ?case by simp
next
  case (Cons a as)
  let ?u = "apply_action p a s"
  from Cons(3) have a: "a \<in> set (get_applicable_actions p s)" and rest: "path_from p ?u as = Some t"
    by (auto split: if_splits)
  from Cons(2) a have u: "?u \<in> reachable p" by (rule reachable_step)
  from rest assms(5) have gu: "reaches_goal p ?u" by (rule reaches_goal_back)
  with a have gs: "reaches_goal p s" by (rule reaches_goal_step)
  from assms(2) u gu have "\<not> is_dead_end p (evaluate p ?u)" by (rule not_dead_end_if_reaches_goal)
  moreover from assms(2) Cons(2) gs have "\<not> is_dead_end p (evaluate p s)"
    by (rule not_dead_end_if_reaches_goal)
  ultimately have "evaluate p s \<le> cost p a + evaluate p ?u"
    using assms(1) Cons(2) a by (auto simp: consistent_def)
  moreover from Cons.IH[OF u rest] have "evaluate p ?u \<le> plan_cost p as + evaluate p t" .
  ultimately show ?case by simp
qed





subsection \<open>Consequences of the invariants\<close>








subsection \<open>The invariants during an expansion\<close>








subsection \<open>The costs that are recorded\<close>















subsection \<open>The accepted frame\<close>






subsection \<open>A pass of the loop\<close>









subsection \<open>The list as open list, and the scenarios\<close>






subsection \<open>The conditions on the arithmetic in the scenarios\<close>











subsection \<open>The result\<close>




end
